theory Spec2Isabelle
  imports Main
begin

section \<open>Machine parameters\<close>

text \<open>
  The library targets the ESP32, where \<open>size_t\<close> has 32 bits. Every \<open>size_t\<close> of the
  source is a \<open>nat\<close> here, and each addition or subtraction the source performs on one is
  written with its wrap-around modulo \<open>SIZE_MOD\<close>. A \<open>char\<close> of the source is a \<open>char\<close>.

  Undefined behaviour of the source (dereferencing a null \<open>Fragment*\<close>, reading or writing
  outside an array) is the result \<open>None\<close> of the function that runs into it.
\<close>

definition HTTP_BUFFER_FRAGMENT_SIZE :: nat where
  "HTTP_BUFFER_FRAGMENT_SIZE = 512"

definition HTTP_MAX_LINE_LENGTH :: nat where
  "HTTP_MAX_LINE_LENGTH = 512"

definition SIZE_MOD :: nat where
  "SIZE_MOD = 4294967296"

section \<open>Buffer: a byte queue in fixed-size fragments\<close>

text \<open>
  \<open>struct Fragment { char data[HTTP_BUFFER_FRAGMENT_SIZE]; Fragment *next = nullptr; }\<close>:
  the chain from \<open>first\<close> is the list \<open>fragments\<close>, each element the \<open>data\<close> array of one
  fragment; \<open>first == nullptr\<close> is \<open>fragments b = []\<close>, and \<open>last\<close> is the last element.
  \<open>new Fragment()\<close> value-initialises the array, so a new fragment holds NUL bytes.
\<close>

record Buffer =
  start :: nat
  end' :: nat
  fragments :: "char list list"

definition new_Fragment :: "char list" where
  "new_Fragment = replicate HTTP_BUFFER_FRAGMENT_SIZE (CHR 0x00)"

definition Buffer_init :: Buffer where
  "Buffer_init = \<lparr>start = 0, end' = 0, fragments = []\<rparr>"

text \<open>\<open>size_t available() { return end - start; }\<close>, an unsigned subtraction.\<close>

definition available :: "Buffer \<Rightarrow> nat" where
  "available b = (end' b + SIZE_MOD - start b) mod SIZE_MOD"

text \<open>\<open>memcpy(dst + offset, src, length src)\<close> on an array held as a list.\<close>

definition memcpy :: "char list \<Rightarrow> nat \<Rightarrow> char list \<Rightarrow> char list" where
  "memcpy dst offset src = take offset dst @ src @ drop (offset + length src) dst"

text \<open>\<open>Buffer::write\<close>: one recursive call per iteration of its loop.\<close>

function Buffer_write :: "Buffer \<Rightarrow> char list \<Rightarrow> Buffer" where
  "Buffer_write b data =
     (if data = [] then b
      else
        let fs = (if fragments b = [] then [new_Fragment]
                  else if end' b mod HTTP_BUFFER_FRAGMENT_SIZE = 0
                       then fragments b @ [new_Fragment]
                       else fragments b);
            offset = end' b mod HTTP_BUFFER_FRAGMENT_SIZE;
            to_copy = min (HTTP_BUFFER_FRAGMENT_SIZE - offset) (length data)
        in Buffer_write
             (b\<lparr>fragments := butlast fs @ [memcpy (last fs) offset (take to_copy data)],
                end' := (end' b + to_copy) mod SIZE_MOD\<rparr>)
             (drop to_copy data))"
  by pat_completeness auto
termination
  by (relation "measure (\<lambda>(b, data). length data)")
     (auto simp: HTTP_BUFFER_FRAGMENT_SIZE_def min_def)

text \<open>
  \<open>Buffer::read(data, length)\<close>. \<open>copy\<close> says that \<open>data\<close> is not null; \<open>remaining\<close> is
  \<open>length - bytes_read\<close>. The result holds the bytes stored to \<open>data\<close> (none when \<open>data\<close> is
  null) and the buffer after the loop.
\<close>

function Buffer_read_loop :: "bool \<Rightarrow> Buffer \<Rightarrow> nat \<Rightarrow> (char list \<times> Buffer) option" where
  "Buffer_read_loop copy b remaining =
     (if remaining = 0 then Some ([], b)
      else
        let offset = start b mod HTTP_BUFFER_FRAGMENT_SIZE;
            left = min (HTTP_BUFFER_FRAGMENT_SIZE - offset) remaining;
            start1 = (start b + left) mod SIZE_MOD
        in case (if copy
                 then (case fragments b of [] \<Rightarrow> None
                       | f # _ \<Rightarrow> Some (take left (drop offset f)))
                 else Some []) of
             None \<Rightarrow> None
           | Some copied \<Rightarrow>
               (case (if start1 mod HTTP_BUFFER_FRAGMENT_SIZE = 0
                      then (case fragments b of [] \<Rightarrow> None | _ # fs \<Rightarrow> Some fs)
                      else Some (fragments b)) of
                  None \<Rightarrow> None
                | Some fs1 \<Rightarrow>
                    (case Buffer_read_loop copy (b\<lparr>start := start1, fragments := fs1\<rparr>)
                            (remaining - left) of
                       None \<Rightarrow> None
                     | Some (out, b1) \<Rightarrow> Some (copied @ out, b1))))"
  by pat_completeness auto
termination
  by (relation "measure (\<lambda>(copy, b, remaining). remaining)")
     (auto simp: HTTP_BUFFER_FRAGMENT_SIZE_def min_def)

definition Buffer_read_gen :: "bool \<Rightarrow> Buffer \<Rightarrow> nat \<Rightarrow> (char list \<times> Buffer) option" where
  "Buffer_read_gen copy b length0 =
     (let length1 = (if length0 > available b then available b else length0)
      in case Buffer_read_loop copy b length1 of
           None \<Rightarrow> None
         | Some (out, b1) \<Rightarrow>
             Some (out, if start b1 = end' b1
                        then b1\<lparr>start := 0, end' := 0, fragments := []\<rparr>
                        else b1))"

text \<open>\<open>read\<close> with a destination; \<open>bytes_read\<close> is the length of the bytes returned.\<close>

definition Buffer_read :: "Buffer \<Rightarrow> nat \<Rightarrow> (char list \<times> Buffer) option" where
  "Buffer_read b length0 = Buffer_read_gen True b length0"

text \<open>\<open>void consume(size_t length) { read(nullptr, length); }\<close>\<close>

definition consume :: "Buffer \<Rightarrow> nat \<Rightarrow> Buffer option" where
  "consume b length0 = map_option snd (Buffer_read_gen False b length0)"

text \<open>\<open>Buffer::clear\<close>\<close>

definition clear :: "Buffer \<Rightarrow> Buffer" where
  "clear b = b\<lparr>fragments := [], start := 0, end' := 0\<rparr>"


text \<open>
  \<open>Buffer::get(&length)\<close>: the bytes the returned pointer gives access to
  (\<open>Some None\<close> is the null pointer the source returns when no byte is left).
\<close>

definition get :: "Buffer \<Rightarrow> nat \<Rightarrow> char list option option" where
  "get b length0 =
     (let offset = start b mod HTTP_BUFFER_FRAGMENT_SIZE;
          length1 = (if length0 > available b then available b else length0);
          length2 = (if length1 > HTTP_BUFFER_FRAGMENT_SIZE - offset
                     then HTTP_BUFFER_FRAGMENT_SIZE - offset else length1)
      in if length2 = 0 then Some None
         else (case fragments b of
                 [] \<Rightarrow> None
               | f # _ \<Rightarrow> Some (Some (take length2 (drop offset f)))))"

text \<open>
  The scan of \<open>Buffer::readline\<close>: \<open>end_off\<close> is \<open>end % HTTP_BUFFER_FRAGMENT_SIZE\<close>, \<open>frs\<close> the
  chain from \<open>fragment\<close>. The result is \<open>None\<close> when the loop dereferences a null
  \<open>fragment\<close>, \<open>Some None\<close> when the loop ends without a newline, and \<open>Some (Some (n, cr))\<close>
  when it reaches a newline with these values of \<open>n\<close> and \<open>cr\<close>.
\<close>

function readline_scan ::
    "nat \<Rightarrow> char list list \<Rightarrow> nat \<Rightarrow> nat \<Rightarrow> bool \<Rightarrow> (nat \<times> bool) option option" where
  "readline_scan end_off frs i n cr =
     (if (if frs \<noteq> [] then True else i < end_off)
      then (case frs of
              [] \<Rightarrow> None
            | f # rest \<Rightarrow>
                if f ! i = CHR 0x0D
                then (if i + 1 \<ge> HTTP_BUFFER_FRAGMENT_SIZE
                      then readline_scan end_off rest 0 (n + 1) True
                      else readline_scan end_off frs (i + 1) (n + 1) True)
                else if f ! i = CHR 0x0A then Some (Some (n + 1, cr))
                else (if i + 1 \<ge> HTTP_BUFFER_FRAGMENT_SIZE
                      then readline_scan end_off rest 0 (n + 1) False
                      else readline_scan end_off frs (i + 1) (n + 1) False))
      else Some None)"
  by pat_completeness auto
termination
  by (relation "measure (\<lambda>(end_off, frs, i, n, cr).
        length frs * (HTTP_BUFFER_FRAGMENT_SIZE + 1) + (HTTP_BUFFER_FRAGMENT_SIZE - i))")
     auto

text \<open>
  \<open>Buffer::readline(data, length)\<close>. The line returned is the content of \<open>data\<close> before the
  terminating NUL that \<open>readline\<close> stores; \<open>Some (None, b)\<close> is the return of \<open>NULL\<close>.
  Storing the NUL at \<open>data[n - (cr ? 2 : 1)]\<close> is outside the array when the index
  underflows, and the line holds bytes of \<open>data\<close> that were never written when \<open>read\<close>
  delivered fewer bytes than the index.
\<close>

definition Buffer_readline :: "Buffer \<Rightarrow> nat \<Rightarrow> (char list option \<times> Buffer) option" where
  "Buffer_readline b length0 =
     (case readline_scan (end' b mod HTTP_BUFFER_FRAGMENT_SIZE) (fragments b)
             (start b mod HTTP_BUFFER_FRAGMENT_SIZE) 0 False of
        None \<Rightarrow> None
      | Some None \<Rightarrow> Some (None, b)
      | Some (Some (n0, cr0)) \<Rightarrow>
          (let n = (if n0 > length0 then length0 else n0);
               cr = (if n0 > length0 then False else cr0);
               back = (if cr then 2 else 1)
           in case Buffer_read b n of
                None \<Rightarrow> None
              | Some (out, b1) \<Rightarrow>
                  if n < back then None
                  else if length out < n - back then None
                  else Some (Some (take (n - back) out), b1)))"


section \<open>C strings and the C library\<close>

text \<open>
  A \<open>const char*\<close> argument is the list of its bytes before the terminating NUL;
  \<open>c_str\<close> reads an array as such a string.
\<close>

definition c_str :: "char list \<Rightarrow> string" where
  "c_str bytes = takeWhile (\<lambda>c. c \<noteq> CHR 0x00) bytes"

definition isdigit :: "char \<Rightarrow> bool" where
  "isdigit c \<longleftrightarrow> 48 \<le> (of_char c :: nat) \<and> (of_char c :: nat) \<le> 57"

definition tolower :: "char \<Rightarrow> char" where
  "tolower c =
     (if 65 \<le> (of_char c :: nat) \<and> (of_char c :: nat) \<le> 90
      then char_of ((of_char c :: nat) + 32) else c)"

text \<open>\<open>strcasecmp(a, b) == 0\<close>\<close>

definition strcasecmp_eq :: "string \<Rightarrow> string \<Rightarrow> bool" where
  "strcasecmp_eq a b \<longleftrightarrow> map tolower a = map tolower b"

text \<open>\<open>strchr(s, c)\<close>: the string from the first \<open>c\<close> on, \<open>None\<close> for the null pointer.\<close>

definition strchr :: "string \<Rightarrow> char \<Rightarrow> string option" where
  "strchr s c = (if c \<in> set s then Some (dropWhile (\<lambda>x. x \<noteq> c) s) else None)"

text \<open>\<open>s + strspn(s, accept)\<close>\<close>

definition skip_span :: "string \<Rightarrow> string \<Rightarrow> string" where
  "skip_span s accept = dropWhile (\<lambda>x. x \<in> set accept) s"

text \<open>
  \<open>AsyncHTTPRequest::parseInteger\<close>: \<open>value = value * 10 + (string[i] - '0')\<close> in \<open>size_t\<close>,
  as long as \<open>isdigit(string[i])\<close>; the end of the list is the NUL, which is no digit.
\<close>

fun parseInteger_loop :: "nat \<Rightarrow> string \<Rightarrow> nat" where
  "parseInteger_loop v [] = v"
| "parseInteger_loop v (c # cs) =
     (if isdigit c
      then parseInteger_loop ((v * 10 + ((of_char c :: nat) - 48)) mod SIZE_MOD) cs
      else v)"

definition parseInteger :: "string \<Rightarrow> nat" where
  "parseInteger s = parseInteger_loop 0 s"

text \<open>The conversion of a \<open>size_t\<close> to \<open>int\<close> (two's complement, 32 bits).\<close>

definition size_to_int :: "nat \<Rightarrow> int" where
  "size_to_int v = (if v mod SIZE_MOD < 2147483648 then int (v mod SIZE_MOD)
                    else int (v mod SIZE_MOD) - 4294967296)"

text \<open>Arduino's \<open>String(n)\<close> for an unsigned number: its decimal digits.\<close>

fun decimal_digits :: "nat \<Rightarrow> nat \<Rightarrow> string" where
  "decimal_digits 0 n = []"
| "decimal_digits (Suc fuel) n =
     (if n < 10 then [char_of (48 + n)]
      else decimal_digits fuel (n div 10) @ [char_of (48 + n mod 10)])"

definition String_of_size :: "nat \<Rightarrow> string" where
  "String_of_size n = decimal_digits 10 (n mod SIZE_MOD)"

section \<open>URL\<close>

record URL =
  scheme :: string
  host :: string
  port :: int
  path :: string

text \<open>\<open>AsyncHTTPRequest::URL::URL(const char* url)\<close>; \<open>port = 0\<close> and empty strings by default.\<close>

definition URL_parse :: "string \<Rightarrow> URL" where
  "URL_parse url =
     (case strchr url (CHR '':'') of
        None \<Rightarrow> \<lparr>scheme = url, host = [], port = 0, path = []\<rparr>
      | Some colon \<Rightarrow>
          (let scheme0 = takeWhile (\<lambda>x. x \<noteq> CHR '':'') url;
               rest0 = tl colon
           in if \<not> (take 1 rest0 = ''/'' \<and> take 1 (drop 1 rest0) = ''/'')
              then \<lparr>scheme = scheme0, host = [], port = 0, path = rest0\<rparr>
              else
                (let rest = drop 2 rest0;
                     host_port = takeWhile (\<lambda>x. x \<noteq> CHR ''/'') rest;
                     slash = dropWhile (\<lambda>x. x \<noteq> CHR ''/'') rest
                 in if CHR '':'' \<in> set host_port
                    then \<lparr>scheme = scheme0,
                          host = takeWhile (\<lambda>x. x \<noteq> CHR '':'') host_port,
                          port = size_to_int (parseInteger
                                   (tl (dropWhile (\<lambda>x. x \<noteq> CHR '':'') rest))),
                          path = slash\<rparr>
                    else \<lparr>scheme = scheme0, host = host_port,
                          port = (if scheme0 = ''http'' then 80
                                  else if scheme0 = ''https'' then 443 else 0),
                          path = slash\<rparr>)))"


section \<open>The request object\<close>

datatype State =
    EMPTY
  | ERROR
  | CONNECTING
  | SENDING_REQUEST
  | SENDING_BODY
  | RECEIVING_STATUS_LINE
  | RECEIVING_HEADERS
  | RECEIVING_BODY
  | COMPLETE

datatype Error =
    ERROR_OK
  | ERROR_SCHEME
  | ERROR_IN_USE
  | ERROR_CANNOT_CONNECT
  | ERROR_TIMEOUT
  | ERROR_CONNECTION_CLOSED

text \<open>A call of one of the user's handlers, with the arguments after the request itself.\<close>

datatype handler_call =
    BeginResponse int
  | ReceivedData
  | Completion
  | ErrorNotice Error

text \<open>
  The fields of \<open>class AsyncHTTPRequest\<close>. A handler, \<open>mutex\<close>, \<open>client\<close> and \<open>reader_task\<close>
  are \<open>True\<close> when the pointer or function object is not null. \<open>requestBody\<close> and
  \<open>responseBody\<close> are \<open>Buffer*\<close>. \<open>calls\<close> is not a field of the class: it lists the
  handler calls made so far, oldest first.
\<close>

record AsyncHTTPRequest =
  beginResponseHandler :: bool
  completionHandler :: bool
  errorHandler :: bool
  receivedDataHandler :: bool
  mutex :: bool
  reader_task :: bool
  state :: State
  current_error :: Error
  lastErrorString :: string
  client :: bool
  buffer :: Buffer
  requestBody :: "Buffer option"
  httpStatus :: int
  chunkedResponse :: bool
  chunkSize :: nat
  inChunkSize :: bool
  responseContentLength :: nat
  dataReceived :: nat
  haveContentLength :: bool
  responseBody :: "Buffer option"
  response_content_type :: string
  notify_data :: bool
  notify_complete :: bool
  notify_error :: bool
  calls :: "handler_call list"

text \<open>\<open>AsyncHTTPRequest() = default\<close>, with the member initialisers of the class.\<close>

definition AsyncHTTPRequest_init :: AsyncHTTPRequest where
  "AsyncHTTPRequest_init =
     \<lparr>beginResponseHandler = False, completionHandler = False, errorHandler = False,
      receivedDataHandler = False, mutex = False, reader_task = False,
      state = EMPTY, current_error = ERROR_OK, lastErrorString = [],
      client = False, buffer = Buffer_init, requestBody = None,
      httpStatus = 0, chunkedResponse = False, chunkSize = 0, inChunkSize = False,
      responseContentLength = 0, dataReceived = 0, haveContentLength = False,
      responseBody = None, response_content_type = [],
      notify_data = False, notify_complete = False, notify_error = False,
      calls = []\<rparr>"

text \<open>The accessors of the header file.\<close>

definition isComplete :: "AsyncHTTPRequest \<Rightarrow> bool" where
  "isComplete r \<longleftrightarrow> state r = ERROR \<or> state r = COMPLETE"

definition error :: "AsyncHTTPRequest \<Rightarrow> Error" where
  "error r = current_error r"

definition errorString :: "AsyncHTTPRequest \<Rightarrow> string" where
  "errorString r = lastErrorString r"

definition status :: "AsyncHTTPRequest \<Rightarrow> int" where
  "status r = httpStatus r"

text \<open>\<open>AsyncHTTPRequest::contentLength\<close>\<close>

definition contentLength :: "AsyncHTTPRequest \<Rightarrow> nat" where
  "contentLength r =
     (if haveContentLength r then responseContentLength r
      else if state r = COMPLETE then dataReceived r
      else 0)"

text \<open>\<open>AsyncHTTPRequest::handleError(Error new_error, const char* detail)\<close>\<close>

definition error_text :: "Error \<Rightarrow> string" where
  "error_text e =
     (case e of
        ERROR_OK \<Rightarrow> ''No error''
      | ERROR_SCHEME \<Rightarrow> ''Unsupported URL scheme''
      | ERROR_IN_USE \<Rightarrow> ''Request already started''
      | ERROR_CANNOT_CONNECT \<Rightarrow> ''Cannot connect''
      | ERROR_TIMEOUT \<Rightarrow> ''Request timed out''
      | ERROR_CONNECTION_CLOSED \<Rightarrow> ''Server closed connection'')"

definition handleError :: "Error \<Rightarrow> string option \<Rightarrow> AsyncHTTPRequest \<Rightarrow> AsyncHTTPRequest" where
  "handleError new_error detail r =
     (if state r \<noteq> ERROR
      then
        (let call_handler = (state r = EMPTY);
             r1 = r\<lparr>current_error := new_error, state := ERROR\<rparr>;
             r2 = r1\<lparr>lastErrorString := error_text (error r1)\<rparr>;
             r3 = (case detail of
                     None \<Rightarrow> r2
                   | Some d \<Rightarrow> r2\<lparr>lastErrorString := lastErrorString r2 @ '': '' @ d\<rparr>)
         in if call_handler then r3\<lparr>notify_error := True\<rparr> else r3)
      else r)"

text \<open>\<open>AsyncHTTPRequest::requestCompleted\<close>\<close>

definition requestCompleted :: "AsyncHTTPRequest \<Rightarrow> AsyncHTTPRequest" where
  "requestCompleted r = r\<lparr>state := COMPLETE, notify_complete := True\<rparr>"

text \<open>\<open>AsyncHTTPRequest::close_client\<close>\<close>

definition close_client :: "AsyncHTTPRequest \<Rightarrow> AsyncHTTPRequest" where
  "close_client r = (if client r then r\<lparr>client := False\<rparr> else r)"

text \<open>\<open>AsyncHTTPRequest::post_notifications\<close>\<close>

definition post_notifications :: "AsyncHTTPRequest \<Rightarrow> AsyncHTTPRequest" where
  "post_notifications r =
     (if notify_error r
      then
        (let r1 = (if errorHandler r then r\<lparr>calls := calls r @ [ErrorNotice (error r)]\<rparr> else r)
         in close_client
              (r1\<lparr>notify_error := False, notify_data := False, notify_complete := False\<rparr>))
      else
        (let r1 = (if notify_data r
                   then (if receivedDataHandler r then r\<lparr>calls := calls r @ [ReceivedData]\<rparr>
                         else r)\<lparr>notify_data := False\<rparr>
                   else r)
         in if notify_complete r1
            then close_client
                   ((if completionHandler r1 then r1\<lparr>calls := calls r1 @ [Completion]\<rparr>
                     else r1)\<lparr>notify_complete := False\<rparr>)
            else r1))"

text \<open>
  \<open>AsyncHTTPRequest::processBodyData(data, length)\<close>, \<open>length\<close> being the length of \<open>data\<close>.
  After the clamp, \<open>write\<close> reads \<open>length\<close> bytes of \<open>data\<close>: beyond its end when the unsigned
  subtraction gave more than \<open>data\<close> holds.
\<close>

definition processBodyData :: "char list \<Rightarrow> AsyncHTTPRequest \<Rightarrow> AsyncHTTPRequest option" where
  "processBodyData data r =
     (let length1 =
            (if haveContentLength r \<and>
                (dataReceived r + length data) mod SIZE_MOD > responseContentLength r
             then (responseContentLength r + SIZE_MOD - dataReceived r) mod SIZE_MOD
             else length data)
      in if length1 > length data then None
         else
           (let body = (case responseBody r of None \<Rightarrow> Buffer_init | Some b \<Rightarrow> b);
                r1 = r\<lparr>responseBody := Some (Buffer_write body (take length1 data)),
                       dataReceived := (dataReceived r + length1) mod SIZE_MOD,
                       notify_data := True,
                       reader_task := False\<rparr>
            in Some (if haveContentLength r1 \<and> dataReceived r1 \<ge> responseContentLength r1
                     then requestCompleted r1 else r1)))"

text \<open>\<open>AsyncHTTPRequest::parseStatusLine\<close>\<close>

definition parseStatusLine :: "string \<Rightarrow> AsyncHTTPRequest \<Rightarrow> AsyncHTTPRequest" where
  "parseStatusLine line r =
     (case strchr line (CHR '' '') of
        None \<Rightarrow> r
      | Some l \<Rightarrow>
          r\<lparr>httpStatus := size_to_int (parseInteger (skip_span l '' '')),
            state := RECEIVING_HEADERS\<rparr>)"


text \<open>
  From here on a result \<open>None\<close> says that the call has no defined outcome: a callee ran
  into undefined behaviour, or a loop of the source does not end.

  The loop at the end of headers in \<open>parseHeader\<close>:
  \<open>while ((length = buffer.read(data, sizeof(data))) > 0) processBodyData(data, length);\<close>
\<close>

partial_function (option) drain_buffer :: "AsyncHTTPRequest \<Rightarrow> AsyncHTTPRequest option" where
  "drain_buffer r =
     (case Buffer_read (buffer r) HTTP_BUFFER_FRAGMENT_SIZE of
        None \<Rightarrow> None
      | Some (data, b1) \<Rightarrow>
          if length data > 0
          then (case processBodyData data (r\<lparr>buffer := b1\<rparr>) of
                  None \<Rightarrow> None
                | Some r1 \<Rightarrow> drain_buffer r1)
          else Some (r\<lparr>buffer := b1\<rparr>))"

text \<open>\<open>AsyncHTTPRequest::parseHeader\<close>; \<open>line\<close> is the C string of the line.\<close>

definition parseHeader :: "string \<Rightarrow> AsyncHTTPRequest \<Rightarrow> AsyncHTTPRequest option" where
  "parseHeader line r =
     (if line = []
      then
        (let r1 = r\<lparr>state := RECEIVING_BODY\<rparr>;
             r2 = (if beginResponseHandler r1
                   then r1\<lparr>calls := calls r1 @ [BeginResponse (status r1)]\<rparr> else r1)
         in drain_buffer r2)
      else
        (case strchr line (CHR '':'') of
           None \<Rightarrow> Some r
         | Some colon \<Rightarrow>
             (let name = takeWhile (\<lambda>x. x \<noteq> CHR '':'') line;
                  val = skip_span (tl colon) [CHR '' '', CHR 0x09]
              in if strcasecmp_eq name ''Content-Length''
                 then Some (r\<lparr>responseContentLength := parseInteger val,
                             haveContentLength := True\<rparr>)
                 else if strcasecmp_eq name ''Content-Type''
                 then Some (r\<lparr>response_content_type := val\<rparr>)
                 else if strcasecmp_eq name ''Transfer-Encoding''
                 then (if strcasecmp_eq val ''chunked''
                       then Some (r\<lparr>chunkedResponse := True, inChunkSize := True,
                                   chunkSize := 0\<rparr>)
                       else Some r)
                 else Some r)))"

text \<open>
  The loop of \<open>handleData\<close> over the lines of the status line and the headers; the line
  buffer has \<open>HTTP_MAX_LINE_LENGTH\<close> bytes.
\<close>

partial_function (option) handleData_lines :: "AsyncHTTPRequest \<Rightarrow> AsyncHTTPRequest option" where
  "handleData_lines r =
     (if state r = RECEIVING_STATUS_LINE \<or> state r = RECEIVING_HEADERS
      then (case Buffer_readline (buffer r) HTTP_MAX_LINE_LENGTH of
              None \<Rightarrow> None
            | Some (None, b1) \<Rightarrow> Some r
            | Some (Some line, b1) \<Rightarrow>
                if state r = RECEIVING_STATUS_LINE
                then handleData_lines (parseStatusLine (c_str line) (r\<lparr>buffer := b1\<rparr>))
                else (case parseHeader (c_str line) (r\<lparr>buffer := b1\<rparr>) of
                        None \<Rightarrow> None
                      | Some r1 \<Rightarrow> handleData_lines r1))
      else Some r)"

text \<open>
  \<open>AsyncHTTPRequest::handleData\<close>. In the states of the status line and the headers the
  source returns from inside the \<open>switch\<close>, before \<open>post_notifications\<close>.
\<close>

definition handleData :: "char list \<Rightarrow> AsyncHTTPRequest \<Rightarrow> AsyncHTTPRequest option" where
  "handleData data r =
     (if state r = RECEIVING_STATUS_LINE \<or> state r = RECEIVING_HEADERS
      then handleData_lines (r\<lparr>buffer := Buffer_write (buffer r) data\<rparr>)
      else if state r = RECEIVING_BODY
      then map_option post_notifications (processBodyData data r)
      else Some (post_notifications r))"


section \<open>The chunked decoder\<close>

text \<open>
  \<open>AsyncHTTPRequest::processChunkedBodyData\<close>. No function of the source calls it:
  \<open>handleData\<close> and \<open>parseHeader\<close> pass every body byte to \<open>processBodyData\<close>.

  Its first inner loop reads the digits of the chunk size, from index \<open>i\<close>.
\<close>

function chunk_size_digits :: "char list \<Rightarrow> nat \<Rightarrow> nat \<Rightarrow> nat \<times> nat" where
  "chunk_size_digits data i size0 =
     (if i < length data \<and> isdigit (data ! i)
      then chunk_size_digits data (i + 1)
             ((size0 * 10 + ((of_char (data ! i) :: nat) - 48)) mod SIZE_MOD)
      else (i, size0))"
  by pat_completeness auto
termination
  by (relation "measure (\<lambda>(data, i, size0). length data - i)") auto

text \<open>
  The second inner loop, \<open>while (i < length)\<close>. \<open>Some (Inl r)\<close> is the \<open>return\<close> after
  \<open>requestCompleted\<close>, \<open>Some (Inr (data, r))\<close> the end of the loop with the \<open>data\<close> that is
  left, and \<open>None\<close> says that the loop does not end.
\<close>

partial_function (option) chunk_size_line ::
    "char list \<Rightarrow> nat \<Rightarrow> AsyncHTTPRequest \<Rightarrow>
     (AsyncHTTPRequest + char list \<times> AsyncHTTPRequest) option" where
  "chunk_size_line data i r =
     (if i < length data
      then (if data ! i = CHR 0x0D then chunk_size_line data i r
            else if data ! i = CHR 0x0A
            then (if chunkSize r = 0
                  then Some (Inl (requestCompleted (r\<lparr>inChunkSize := False\<rparr>)))
                  else chunk_size_line (drop i data) (i + 1) (r\<lparr>inChunkSize := False\<rparr>))
            else chunk_size_line data (i + 1) r)
      else Some (Inr (data, r)))"

text \<open>
  The outer loop, \<open>while (length > 0)\<close>: \<open>None\<close> when it does not end, \<open>Some None\<close> when
  \<open>processBodyData\<close> has no defined outcome.
\<close>

partial_function (option) processChunkedBodyData ::
    "char list \<Rightarrow> AsyncHTTPRequest \<Rightarrow> AsyncHTTPRequest option option" where
  "processChunkedBodyData data r =
     (if length data > 0
      then (if inChunkSize r
            then (case chunk_size_digits data 0 (chunkSize r) of
                    (i, size1) \<Rightarrow>
                      (case chunk_size_line data i (r\<lparr>chunkSize := size1\<rparr>) of
                         None \<Rightarrow> None
                       | Some (Inl r1) \<Rightarrow> Some (Some r1)
                       | Some (Inr (data1, r1)) \<Rightarrow> processChunkedBodyData data1 r1))
            else (let data_length = (if length data < chunkSize r then length data
                                     else chunkSize r)
                  in case processBodyData (take data_length data) r of
                       None \<Rightarrow> Some None
                     | Some r1 \<Rightarrow>
                         (let r2 = r1\<lparr>chunkSize := chunkSize r1 - data_length\<rparr>
                          in processChunkedBodyData (drop data_length data)
                               (if chunkSize r2 = 0 then r2\<lparr>inChunkSize := True\<rparr> else r2))))
      else Some (Some r))"

section \<open>Sending\<close>

text \<open>
  The transport is not part of the repository. What it answers during one event is a
  parameter: \<open>space\<close> is the result of \<open>client->space()\<close>, and \<open>add n\<close> the number of bytes
  \<open>client->add(data, n)\<close> accepts, which is never more than the \<open>n\<close> it is offered.
\<close>

record AsyncSSLClient =
  space :: nat
  add :: "nat \<Rightarrow> nat"

text \<open>
  \<open>bool AsyncHTTPRequest::sendData(Buffer* buffer)\<close>: the loop, with \<open>to_send\<close> bytes of
  window left.
\<close>

function sendData_loop :: "AsyncSSLClient \<Rightarrow> Buffer \<Rightarrow> nat \<Rightarrow> (bool \<times> Buffer) option" where
  "sendData_loop cl b to_send =
     (if to_send > 0
      then (case get b to_send of
              None \<Rightarrow> None
            | Some None \<Rightarrow> Some (True, b)
            | Some (Some data) \<Rightarrow>
                (let length1 = min (length data) (add cl (length data))
                 in if length1 = 0 then Some (False, b)
                    else (case consume b length1 of
                            None \<Rightarrow> None
                          | Some b1 \<Rightarrow> sendData_loop cl b1 (to_send - length1))))
      else Some (False, b))"
  by pat_completeness auto
termination
  by (relation "measure (\<lambda>(cl, b, to_send). to_send)") auto

definition sendData_Buffer :: "AsyncSSLClient \<Rightarrow> Buffer \<Rightarrow> (bool \<times> Buffer) option" where
  "sendData_Buffer cl b = sendData_loop cl b (space cl)"

text \<open>\<open>void AsyncHTTPRequest::sendData()\<close>; \<open>requestBody\<close> is dereferenced in \<open>SENDING_BODY\<close>.\<close>

definition sendData :: "AsyncSSLClient \<Rightarrow> AsyncHTTPRequest \<Rightarrow> AsyncHTTPRequest option" where
  "sendData cl r =
     (case (if state r = SENDING_REQUEST
            then (case sendData_Buffer cl (buffer r) of
                    None \<Rightarrow> None
                  | Some (done, b1) \<Rightarrow>
                      Some (if done
                            then (if requestBody r \<noteq> None
                                  then r\<lparr>buffer := b1, state := SENDING_BODY\<rparr>
                                  else r\<lparr>buffer := b1, state := RECEIVING_STATUS_LINE\<rparr>)
                            else r\<lparr>buffer := b1\<rparr>))
            else Some r) of
        None \<Rightarrow> None
      | Some r1 \<Rightarrow>
          if state r1 = SENDING_BODY
          then (case requestBody r1 of
                  None \<Rightarrow> None
                | Some body \<Rightarrow>
                    (case sendData_Buffer cl body of
                       None \<Rightarrow> None
                     | Some (done, body1) \<Rightarrow>
                         Some (if done
                               then r1\<lparr>requestBody := Some body1,
                                       state := RECEIVING_STATUS_LINE\<rparr>
                               else r1\<lparr>requestBody := Some body1\<rparr>)))
          else Some r1)"

section \<open>Transport events\<close>

text \<open>\<open>AsyncHTTPRequest::handleAck\<close>\<close>

definition handleAck :: "AsyncSSLClient \<Rightarrow> AsyncHTTPRequest \<Rightarrow> AsyncHTTPRequest option" where
  "handleAck cl r =
     map_option post_notifications
       (sendData cl (if state r = CONNECTING then r\<lparr>state := SENDING_REQUEST\<rparr> else r))"

text \<open>\<open>AsyncHTTPRequest::handleConnect\<close>\<close>

definition handleConnect :: "AsyncSSLClient \<Rightarrow> AsyncHTTPRequest \<Rightarrow> AsyncHTTPRequest option" where
  "handleConnect cl r =
     map_option post_notifications (sendData cl (r\<lparr>state := SENDING_REQUEST\<rparr>))"

text \<open>\<open>AsyncHTTPRequest::handleDisconnect\<close>\<close>

definition handleDisconnect :: "AsyncHTTPRequest \<Rightarrow> AsyncHTTPRequest" where
  "handleDisconnect r =
     (let r1 =
            (case state r of
               RECEIVING_BODY \<Rightarrow>
                 if \<not> chunkedResponse r \<and> \<not> haveContentLength r
                 then requestCompleted r
                 else handleError ERROR_CONNECTION_CLOSED None r
             | CONNECTING \<Rightarrow> handleError ERROR_CONNECTION_CLOSED None r
             | SENDING_REQUEST \<Rightarrow> handleError ERROR_CONNECTION_CLOSED None r
             | SENDING_BODY \<Rightarrow> handleError ERROR_CONNECTION_CLOSED None r
             | RECEIVING_STATUS_LINE \<Rightarrow> handleError ERROR_CONNECTION_CLOSED None r
             | RECEIVING_HEADERS \<Rightarrow> handleError ERROR_CONNECTION_CLOSED None r
             | EMPTY \<Rightarrow> r
             | ERROR \<Rightarrow> r
             | COMPLETE \<Rightarrow> r)
      in post_notifications (r1\<lparr>client := False\<rparr>))"

text \<open>
  \<open>AsyncHTTPRequest::handleError(int error_code)\<close>; \<open>detail\<close> is the text
  \<open>client->errorToString(error_code)\<close> returns.
\<close>

definition handleError_code :: "string \<Rightarrow> AsyncHTTPRequest \<Rightarrow> AsyncHTTPRequest" where
  "handleError_code detail r =
     (let r1 = (if state r = CONNECTING
                then handleError ERROR_CANNOT_CONNECT (Some detail) r
                else handleError ERROR_CONNECTION_CLOSED (Some detail) r)
      in post_notifications (r1\<lparr>client := False\<rparr>))"

text \<open>\<open>AsyncHTTPRequest::handleTimeout\<close>\<close>

definition handleTimeout :: "AsyncHTTPRequest \<Rightarrow> AsyncHTTPRequest" where
  "handleTimeout r =
     post_notifications ((handleError ERROR_TIMEOUT None r)\<lparr>client := False\<rparr>)"

section \<open>The public calls\<close>

definition USE_SSL :: bool where
  "USE_SSL = True"

text \<open>
  \<open>AsyncHTTPRequest::send\<close>. \<open>mutex_created\<close> says that \<open>xSemaphoreCreateMutex\<close> returned a
  mutex, \<open>connected\<close> is the result of \<open>client->connect\<close>. \<open>content_type\<close> and \<open>body\<close> are
  \<open>None\<close> for \<open>nullptr\<close>.
\<close>

definition send ::
    "bool \<Rightarrow> bool \<Rightarrow> string \<Rightarrow> string \<Rightarrow> string option \<Rightarrow> Buffer option \<Rightarrow>
     AsyncHTTPRequest \<Rightarrow> Error \<times> AsyncHTTPRequest" where
  "send mutex_created connected method url_string content_type body r =
     (if state r \<noteq> EMPTY
      then (let r1 = handleError ERROR_IN_USE None r in (error r1, r1))
      else
        (let url = URL_parse url_string
         in if \<not> (scheme url = ''http'' \<or> (USE_SSL \<and> scheme url = ''https''))
            then (let r1 = handleError ERROR_SCHEME (Some (scheme url)) r in (error r1, r1))
            else if \<not> mutex_created
            then (let r1 = handleError ERROR_CANNOT_CONNECT (Some ''can't create mutex'') r
                  in (error r1, r1))
            else
              (let b0 = Buffer_write (buffer r) method;
                   b1 = Buffer_write b0 '' '';
                   b2 = Buffer_write b1 (path url);
                   b3 = Buffer_write b2 ('' HTTP/1.1'' @ [CHR 0x0D, CHR 0x0A] @ ''Host: '');
                   b4 = Buffer_write b3 (host url);
                   b5 = Buffer_write b4 [CHR 0x0D, CHR 0x0A];
                   b6 = (case body of
                           None \<Rightarrow> b5
                         | Some bd \<Rightarrow>
                             (let c0 = (case content_type of
                                          None \<Rightarrow> b5
                                        | Some ct \<Rightarrow>
                                            Buffer_write
                                              (Buffer_write (Buffer_write b5 ''Content-Type: '') ct)
                                              [CHR 0x0D, CHR 0x0A]);
                                  c1 = Buffer_write c0 ''Content-Length: '';
                                  c2 = Buffer_write c1 (String_of_size (available bd))
                              in Buffer_write c2 [CHR 0x0D, CHR 0x0A]));
                   b7 = Buffer_write b6 [CHR 0x0D, CHR 0x0A];
                   r1 = r\<lparr>mutex := True, client := True, buffer := b7, requestBody := body,
                          state := CONNECTING\<rparr>
               in if \<not> connected
                  then (let r2 = handleError ERROR_CANNOT_CONNECT None r1;
                            r3 = r2\<lparr>buffer := clear (buffer r2), requestBody := None,
                                    client := False\<rparr>
                        in (error r3, r3))
                  else (ERROR_OK, r1))))"

text \<open>
  \<open>Error get(const char* url) { send("GET", url, nullptr, nullptr); }\<close> and
  \<open>Error post(...) { send("POST", url, content_type, body); }\<close> have no \<open>return\<close>
  statement: the value of the call is \<open>None\<close>.
\<close>

definition get_request ::
    "bool \<Rightarrow> bool \<Rightarrow> string \<Rightarrow> AsyncHTTPRequest \<Rightarrow> Error option \<times> AsyncHTTPRequest" where
  "get_request mutex_created connected url r =
     (None, snd (send mutex_created connected ''GET'' url None None r))"

definition post ::
    "bool \<Rightarrow> bool \<Rightarrow> string \<Rightarrow> string option \<Rightarrow> Buffer option \<Rightarrow>
     AsyncHTTPRequest \<Rightarrow> Error option \<times> AsyncHTTPRequest" where
  "post mutex_created connected url content_type body r =
     (None, snd (send mutex_created connected ''POST'' url content_type body r))"

text \<open>\<open>size_t AsyncHTTPRequest::read(char* data, size_t length)\<close>\<close>

definition read :: "nat \<Rightarrow> AsyncHTTPRequest \<Rightarrow> (char list \<times> AsyncHTTPRequest) option" where
  "read length0 r =
     (case responseBody r of
        None \<Rightarrow> Some ([], r)
      | Some body \<Rightarrow>
          (case Buffer_read body length0 of
             None \<Rightarrow> None
           | Some (out, body1) \<Rightarrow> Some (out, r\<lparr>responseBody := Some body1\<rparr>)))"


section \<open>What a buffer holds\<close>

text \<open>
  The bytes between \<open>start\<close> and \<open>end\<close>, read off the fragment chain; the bytes of the
  chain after them; and the invariant of the class: the offsets are ordered and fit
  \<open>size_t\<close>, every fragment has \<open>HTTP_BUFFER_FRAGMENT_SIZE\<close> bytes, the chain has one
  fragment for each fragment-sized block from the block of \<open>start\<close> to the last byte
  before \<open>end\<close>, and the bytes after \<open>end\<close> are still the NUL bytes of \<open>new Fragment()\<close>.
\<close>

definition Buffer_contents :: "Buffer \<Rightarrow> char list" where
  "Buffer_contents b =
     take (end' b - start b)
       (drop (start b mod HTTP_BUFFER_FRAGMENT_SIZE) (concat (fragments b)))"

definition Buffer_slack :: "Buffer \<Rightarrow> char list" where
  "Buffer_slack b =
     drop (start b mod HTTP_BUFFER_FRAGMENT_SIZE + (end' b - start b)) (concat (fragments b))"

definition Buffer_inv :: "Buffer \<Rightarrow> bool" where
  "Buffer_inv b \<longleftrightarrow>
     start b \<le> end' b \<and> end' b < SIZE_MOD \<and>
     (\<forall>f \<in> set (fragments b). length f = HTTP_BUFFER_FRAGMENT_SIZE) \<and>
     length (fragments b) =
       (end' b + HTTP_BUFFER_FRAGMENT_SIZE - 1) div HTTP_BUFFER_FRAGMENT_SIZE
         - start b div HTTP_BUFFER_FRAGMENT_SIZE \<and>
     (\<forall>c \<in> set (Buffer_slack b). c = CHR 0x00)"

text \<open>One iteration of the loop of \<open>Buffer::write\<close>, and the bytes it copies.\<close>

definition write_step :: "Buffer \<Rightarrow> char list \<Rightarrow> Buffer" where
  "write_step b data =
     (let fs = (if fragments b = [] then [new_Fragment]
                else if end' b mod HTTP_BUFFER_FRAGMENT_SIZE = 0
                     then fragments b @ [new_Fragment]
                     else fragments b);
          offset = end' b mod HTTP_BUFFER_FRAGMENT_SIZE;
          to_copy = min (HTTP_BUFFER_FRAGMENT_SIZE - offset) (length data)
      in b\<lparr>fragments := butlast fs @ [memcpy (last fs) offset (take to_copy data)],
           end' := (end' b + to_copy) mod SIZE_MOD\<rparr>)"

definition write_count :: "Buffer \<Rightarrow> char list \<Rightarrow> nat" where
  "write_count b data =
     min (HTTP_BUFFER_FRAGMENT_SIZE - end' b mod HTTP_BUFFER_FRAGMENT_SIZE) (length data)"


text \<open>A line without the carriage return that may end it.\<close>

definition strip_cr :: "char list \<Rightarrow> char list" where
  "strip_cr line = (if line \<noteq> [] \<and> last line = CHR 0x0D then butlast line else line)"

section \<open>Example exchanges\<close>

text \<open>
  A request for \<open>example_url\<close> on a fresh object, over a transport that takes every
  byte it is offered: after \<open>send\<close> (\<open>once_sent\<close>), after a second \<open>send\<close> on the same
  object (\<open>twice_sent\<close>), and after the transport has connected and taken the whole
  request (\<open>request_sent\<close>).
\<close>

definition example_url :: string where
  "example_url = ''http://example.com/index.html''"

definition accepting_client :: AsyncSSLClient where
  "accepting_client = \<lparr>space = 1460, add = (\<lambda>n. n)\<rparr>"

definition once_sent :: AsyncHTTPRequest where
  "once_sent = snd (send True True ''GET'' example_url None None AsyncHTTPRequest_init)"

definition twice_sent :: AsyncHTTPRequest where
  "twice_sent = snd (send True True ''GET'' example_url None None once_sent)"

text \<open>The same request on an object on which \<open>onError\<close> has registered a handler.\<close>

definition watched_request :: AsyncHTTPRequest where
  "watched_request =
     snd (send True True ''GET'' example_url None None
            (AsyncHTTPRequest_init\<lparr>errorHandler := True\<rparr>))"

definition request_sent :: "AsyncHTTPRequest option" where
  "request_sent = handleConnect accepting_client once_sent"

definition CRLF :: string where
  "CRLF = [CHR 0x0D, CHR 0x0A]"

text \<open>
  A response with \<open>Content-Length: 11\<close> whose body arrives as \<open>Hello \<close> and \<open>World!\<close>.
\<close>

definition content_length_headers :: string where
  "content_length_headers = ''HTTP/1.1 200 OK'' @ CRLF @ ''Content-Length: 11'' @ CRLF @ CRLF"

definition content_length_exchange :: "AsyncHTTPRequest option" where
  "content_length_exchange =
     Option.bind
       (Option.bind
          (Option.bind request_sent (handleData content_length_headers))
          (handleData ''Hello ''))
       (handleData ''World!'')"

text \<open>A response with \<open>Transfer-Encoding: chunked\<close> and the three chunks of the example.\<close>

definition chunked_headers :: string where
  "chunked_headers =
     ''HTTP/1.1 200 OK'' @ CRLF @ ''Transfer-Encoding: chunked'' @ CRLF @ CRLF"

definition chunk1 :: string where
  "chunk1 = ''5'' @ CRLF @ ''Hello'' @ CRLF"

definition chunk2 :: string where
  "chunk2 = ''6'' @ CRLF @ '' World!'' @ CRLF"

definition chunk3 :: string where
  "chunk3 = ''0'' @ CRLF @ CRLF"

definition chunked_started :: "AsyncHTTPRequest option" where
  "chunked_started = Option.bind request_sent (handleData chunked_headers)"

definition chunked_exchange :: "AsyncHTTPRequest option" where
  "chunked_exchange =
     Option.bind
       (Option.bind
          (Option.bind chunked_started (handleData chunk1))
          (handleData chunk2))
       (handleData chunk3)"

section \<open>Properties of the buffer\<close>

declare Buffer_write.simps [simp del] Buffer_read_loop.simps [simp del]
  readline_scan.simps [simp del] sendData_loop.simps [simp del]
  chunk_size_digits.simps [simp del]

lemma F_pos: "0 < HTTP_BUFFER_FRAGMENT_SIZE"
  by (simp add: HTTP_BUFFER_FRAGMENT_SIZE_def)

lemma Buffer_write_unfold:
  "Buffer_write b data =
     (if data = [] then b
      else Buffer_write (write_step b data) (drop (write_count b data) data))"
  by (subst Buffer_write.simps) (simp add: write_step_def write_count_def Let_def)

lemma ceil_div_0:
  fixes F :: nat
  assumes "0 < F" "e mod F = 0"
  shows "(e + F - 1) div F = e div F"
proof -
  have "e + F - 1 = (F - 1) + (e div F) * F"
    using assms by (simp add: mod_eq_0_iff_dvd)
  also have "\<dots> div F = e div F"
    using assms(1) by (simp del: add_diff_assoc add_diff_assoc2)
  finally show ?thesis .
qed

lemma ceil_div_in_frag:
  fixes F :: nat
  assumes "0 < F" "1 \<le> k" "e mod F + k \<le> F"
  shows "(e + k + F - 1) div F = e div F + 1"
proof -
  define r q where "r = e mod F" and "q = e div F"
  have e: "e = r + q * F" by (simp add: r_def q_def)
  have small: "r + k - 1 < F" using assms by (simp add: r_def)
  have "(q + 1) * F = q * F + F" by simp
  then have "e + k + F - 1 = (r + k - 1) + (q + 1) * F"
    using e assms(2) by linarith
  moreover have "((r + k - 1) + (q + 1) * F) div F = (q + 1) + (r + k - 1) div F"
    by (rule div_mult_self1) (use assms(1) in simp)
  ultimately show ?thesis using small by (simp add: q_def)
qed

lemma ceil_div_1:
  fixes F :: nat
  assumes "0 < F" "e mod F \<noteq> 0"
  shows "(e + F - 1) div F = e div F + 1"
proof -
  define r q where "r = e mod F" and "q = e div F"
  have e: "e = r + q * F" by (simp add: r_def q_def)
  have small: "r - 1 < F" "1 \<le> r" using assms by (simp_all add: r_def less_imp_diff_less)
  have "(q + 1) * F = q * F + F" by simp
  then have "e + F - 1 = (r - 1) + (q + 1) * F"
    using e small(2) by linarith
  moreover have "((r - 1) + (q + 1) * F) div F = (q + 1) + (r - 1) div F"
    by (rule div_mult_self1) (use assms(1) in simp)
  ultimately show ?thesis using small by (simp add: q_def)
qed

lemma length_concat_uniform:
  "\<forall>f \<in> set fs. length f = F \<Longrightarrow> length (concat fs) = F * length fs"
  by (induction fs) auto

lemma memcpy_length:
  "offset + length src \<le> length dst \<Longrightarrow> length (memcpy dst offset src) = length dst"
  by (simp add: memcpy_def)

lemma concat_memcpy_last:
  assumes "fs \<noteq> []" "\<forall>f \<in> set fs. length f = F"
  shows "concat (butlast fs @ [memcpy (last fs) q d]) =
         memcpy (concat fs) (F * (length fs - 1) + q) d"
proof -
  have A: "length (concat (butlast fs)) = F * (length fs - 1)"
    using length_concat_uniform[of "butlast fs" F] assms(2)
    by (auto dest: in_set_butlastD)
  have "concat fs = concat (butlast fs) @ last fs"
    using assms(1) by (metis append_butlast_last_id concat.simps(1,2) concat_append append_Nil2)
  then show ?thesis
    using A by (simp add: memcpy_def)
qed

lemma take_drop_memcpy:
  assumes "off \<le> pos" "pos \<le> length xs"
  shows "take (pos - off + length d) (drop off (memcpy xs pos d)) = take (pos - off) (drop off xs) @ d"
  using assms by (simp add: memcpy_def drop_take)

lemma drop_memcpy:
  assumes "pos \<le> length xs"
  shows "drop (pos + length d) (memcpy xs pos d) = drop (pos + length d) xs"
  using assms by (simp add: memcpy_def)


lemma frag_position:
  fixes F :: nat
  assumes "0 < F" "s \<le> e" "L = (e + F - 1) div F - s div F"
  shows "e mod F = 0 \<Longrightarrow> F * L = s mod F + (e - s)"
    and "e mod F \<noteq> 0 \<Longrightarrow> 1 \<le> L \<and> F * (L - 1) + e mod F = s mod F + (e - s)"
proof -
  define A C where "A = F * (s div F)" and "C = F * (e div F)"
  have s: "s = A + s mod F" and e: "e = C + e mod F" by (simp_all add: A_def C_def)
  have le: "s div F \<le> e div F" using assms(2) by (rule div_le_mono)
  then have AC: "A \<le> C" by (simp add: A_def C_def)
  {
    assume z: "e mod F = 0"
    then have "L = e div F - s div F" using assms ceil_div_0[of F e] by simp
    then have "F * L = C - A" by (simp add: A_def C_def diff_mult_distrib2)
    then show "F * L = s mod F + (e - s)" using s e AC z assms(2) by linarith
  }
  {
    assume nz: "e mod F \<noteq> 0"
    then have L: "L = e div F + 1 - s div F" using assms ceil_div_1[of F e] by simp
    then have "L - 1 = e div F - s div F" using le by simp
    then have "F * (L - 1) = C - A" by (simp add: A_def C_def diff_mult_distrib2)
    then have "F * (L - 1) + e mod F = s mod F + (e - s)" using s e AC assms(2) by linarith
    moreover have "1 \<le> L" using L le by simp
    ultimately show "1 \<le> L \<and> F * (L - 1) + e mod F = s mod F + (e - s)" by simp
  }
qed

lemma write_step_inv:
  assumes inv: "Buffer_inv b" and ne: "data \<noteq> []"
    and bound: "end' b + length data < SIZE_MOD"
  shows "Buffer_inv (write_step b data)"
    and "Buffer_contents (write_step b data) = Buffer_contents b @ take (write_count b data) data"
    and "start (write_step b data) = start b"
    and "end' (write_step b data) = end' b + write_count b data"
proof -
  define F where "F = HTTP_BUFFER_FRAGMENT_SIZE"
  define s e q k L where "s = start b" and "e = end' b" and "q = end' b mod F"
    and "k = write_count b data" and "L = length (fragments b)"
  define fs1 where "fs1 = (if fragments b = [] then [new_Fragment]
                  else if q = 0 then fragments b @ [new_Fragment] else fragments b)"
  define pos where "pos = s mod F + (e - s)"
  define d where "d = take k data"
  have F: "0 < F" by (simp add: F_def F_pos)
  have se: "s \<le> e" and L: "L = (e + F - 1) div F - s div F"
    and lens: "\<forall>f \<in> set (fragments b). length f = F"
    and slack: "\<forall>c \<in> set (drop pos (concat (fragments b))). c = CHR 0x00"
    using inv by (simp_all add: Buffer_inv_def Buffer_slack_def s_def e_def L_def F_def pos_def)
  have qF: "q < F" using F by (simp add: q_def)
  have k: "1 \<le> k" "q + k \<le> F" "k \<le> length data" "length d = k"
    using ne qF by (auto simp: k_def write_count_def q_def F_def d_def min_def Suc_leI)
  have ek: "e + k < SIZE_MOD" using bound k(3) by (simp add: e_def)
  have step: "write_step b data =
      b\<lparr>fragments := butlast fs1 @ [memcpy (last fs1) q d], end' := e + k\<rparr>"
    using ek by (simp add: write_step_def Let_def fs1_def q_def F_def k_def write_count_def
        e_def d_def)
  have newlen: "length new_Fragment = F" by (simp add: new_Fragment_def F_def)
  have cs: "length (concat (fragments b)) = F * L"
    using lens by (simp add: length_concat_uniform L_def)
  have L_nz: "q \<noteq> 0 \<Longrightarrow> 1 \<le> L \<and> F * (L - 1) + q = pos"
    using frag_position(2)[OF F se L] by (simp add: q_def e_def pos_def)
  have L_z: "q = 0 \<Longrightarrow> F * L = pos"
    using frag_position(1)[OF F se L] by (simp add: q_def e_def pos_def)
  have fs1_ne: "fs1 \<noteq> []" by (simp add: fs1_def)
  have fs1_lens: "\<forall>f \<in> set fs1. length f = F"
    using lens newlen by (auto simp: fs1_def)
  have old_ne: "q \<noteq> 0 \<Longrightarrow> fragments b \<noteq> []"
    using L_nz by (auto simp: L_def)
  have fs1_len: "length fs1 = (if q = 0 then L + 1 else L)"
    using old_ne by (cases "q = 0") (auto simp: fs1_def L_def)
  have fs1_concat: "concat fs1 = concat (fragments b) @ (if q = 0 then new_Fragment else [])"
    using old_ne by (cases "q = 0") (auto simp: fs1_def L_def)
  have pos1: "F * (length fs1 - 1) + q = pos"
    using L_nz L_z by (auto simp: fs1_len)
  have pos_le: "pos + k \<le> length (concat fs1)"
  proof (cases "q = 0")
    case True
    then show ?thesis using L_z k newlen by (simp add: fs1_concat cs)
  next
    case False
    have "F * L = F * (L - 1) + F" using L_nz[OF False] by (cases L) simp_all
    then show ?thesis using L_nz[OF False] k False by (simp add: fs1_concat cs)
  qed
  have "concat (butlast fs1 @ [memcpy (last fs1) q d]) = memcpy (concat fs1) pos d"
    using concat_memcpy_last[OF fs1_ne fs1_lens, of q d] pos1 by simp
  moreover have "fragments (write_step b data) = butlast fs1 @ [memcpy (last fs1) q d]"
    by (simp add: step)
  ultimately have concat': "concat (fragments (write_step b data)) = memcpy (concat fs1) pos d"
    by (simp only:)
  have se': "start (write_step b data) = s" "end' (write_step b data) = e + k"
    by (simp_all add: step s_def)
  have off: "s mod F \<le> pos" by (simp add: pos_def)
  have pos_cs: "pos \<le> length (concat (fragments b))"
  proof (cases "q = 0")
    case True
    then show ?thesis using L_z by (simp add: cs)
  next
    case False
    have "F * L = F * (L - 1) + F" using L_nz[OF False] by (cases L) simp_all
    then show ?thesis using L_nz[OF False] qF by (simp add: cs)
  qed
  show "start (write_step b data) = start b" by (simp add: step)
  show "end' (write_step b data) = end' b + write_count b data"
    by (simp add: step e_def k_def)
  have take_old: "take (pos - s mod F) (drop (s mod F) (concat fs1)) = Buffer_contents b"
    using pos_cs by (simp add: fs1_concat Buffer_contents_def pos_def s_def e_def F_def)
  have "Buffer_contents (write_step b data)
        = take (e + k - s) (drop (s mod F) (memcpy (concat fs1) pos d))"
    by (simp add: Buffer_contents_def concat' se' F_def)
  also have "e + k - s = pos - s mod F + length d"
    using se k(4) by (simp add: pos_def)
  also have "take (pos - s mod F + length d) (drop (s mod F) (memcpy (concat fs1) pos d))
        = take (pos - s mod F) (drop (s mod F) (concat fs1)) @ d"
    using pos_le by (intro take_drop_memcpy off) simp
  finally show "Buffer_contents (write_step b data) =
      Buffer_contents b @ take (write_count b data) data"
    by (simp add: take_old d_def k_def)
  have slack': "Buffer_slack (write_step b data) = drop (pos + k) (concat fs1)"
    using se drop_memcpy[of pos "concat fs1" d] pos_le k(4)
    by (simp add: Buffer_slack_def concat' se' F_def pos_def add.assoc)
  have "set (drop (pos + k) (concat fs1)) \<subseteq> set (drop pos (concat fs1))"
    by (rule set_drop_subset_set_drop) simp
  moreover have "\<forall>c \<in> set (drop pos (concat fs1)). c = CHR 0x00"
    using slack pos_cs by (auto simp: fs1_concat new_Fragment_def)
  ultimately have slack_ok: "\<forall>c \<in> set (Buffer_slack (write_step b data)). c = CHR 0x00"
    unfolding slack' by blast
  have "(e + k + F - 1) div F = e div F + 1"
    using ceil_div_in_frag[OF F k(1), of e] k(2) by (simp add: q_def e_def)
  moreover have "s div F \<le> e div F" using se by (rule div_le_mono)
  moreover have "q = 0 \<Longrightarrow> L = e div F - s div F"
    using L F ceil_div_0[of F e] by (simp add: q_def e_def)
  moreover have "q \<noteq> 0 \<Longrightarrow> L = e div F + 1 - s div F"
    using L F ceil_div_1[of F e] by (simp add: q_def e_def)
  ultimately have count: "length fs1 = (e + k + F - 1) div F - s div F"
    by (auto simp: fs1_len)
  have lens': "\<forall>f \<in> set (fragments (write_step b data)). length f = F"
    using fs1_lens fs1_ne k by (auto simp: step memcpy_length dest: in_set_butlastD)
  have "length (fragments (write_step b data)) = length fs1"
    using fs1_ne by (simp add: step)
  then show "Buffer_inv (write_step b data)"
    unfolding Buffer_inv_def
    using se ek lens' count slack_ok
    by (simp add: se' F_def)
qed


lemma Buffer_write_inv:
  assumes "Buffer_inv b" "end' b + length data < SIZE_MOD"
  shows "Buffer_inv (Buffer_write b data) \<and>
         Buffer_contents (Buffer_write b data) = Buffer_contents b @ data \<and>
         start (Buffer_write b data) = start b \<and>
         end' (Buffer_write b data) = end' b + length data"
  using assms
proof (induction "length data" arbitrary: b data rule: less_induct)
  case less
  show ?case
  proof (cases "data = []")
    case True
    then show ?thesis using less.prems by (subst (1 2 3 4) Buffer_write_unfold) simp
  next
    case False
    define k where "k = write_count b data"
    have k: "1 \<le> k" "k \<le> length data"
      using False F_pos by (auto simp: k_def write_count_def min_def Suc_leI)
    note st = write_step_inv[OF less.prems(1) False less.prems(2)]
    have "length (drop k data) < length data" using k False by simp
    moreover have "end' (write_step b data) + length (drop k data) < SIZE_MOD"
      using st(4) k less.prems(2) by (simp add: k_def)
    ultimately have IH:
      "Buffer_inv (Buffer_write (write_step b data) (drop k data)) \<and>
       Buffer_contents (Buffer_write (write_step b data) (drop k data))
         = Buffer_contents (write_step b data) @ drop k data \<and>
       start (Buffer_write (write_step b data) (drop k data)) = start (write_step b data) \<and>
       end' (Buffer_write (write_step b data) (drop k data))
         = end' (write_step b data) + length (drop k data)"
      using less.hyps[of "drop k data" "write_step b data"] st(1) by blast
    have unf: "Buffer_write b data = Buffer_write (write_step b data) (drop k data)"
      using False by (subst Buffer_write_unfold) (simp add: k_def)
    show ?thesis
      unfolding unf using IH st k by (simp add: k_def)
  qed
qed

lemma read_step:
  assumes inv: "Buffer_inv b" and r: "0 < r" "r \<le> end' b - start b"
  defines "left \<equiv> min (HTTP_BUFFER_FRAGMENT_SIZE - start b mod HTTP_BUFFER_FRAGMENT_SIZE) r"
  shows "\<exists>f fs. fragments b = f # fs \<and>
           take left (drop (start b mod HTTP_BUFFER_FRAGMENT_SIZE) f) = take left (Buffer_contents b) \<and>
           (start b + left) mod SIZE_MOD = start b + left \<and>
           Buffer_inv (b\<lparr>start := start b + left,
                          fragments := (if (start b + left) mod HTTP_BUFFER_FRAGMENT_SIZE = 0
                                        then fs else f # fs)\<rparr>) \<and>
           Buffer_contents (b\<lparr>start := start b + left,
                          fragments := (if (start b + left) mod HTTP_BUFFER_FRAGMENT_SIZE = 0
                                        then fs else f # fs)\<rparr>) = drop left (Buffer_contents b)"
proof -
  define F where "F = HTTP_BUFFER_FRAGMENT_SIZE"
  define s e off L cs where "s = start b" and "e = end' b" and "off = start b mod F"
    and "L = length (fragments b)" and "cs = concat (fragments b)"
  have F: "0 < F" by (simp add: F_def F_pos)
  have se: "s \<le> e" and eM: "e < SIZE_MOD" and L: "L = (e + F - 1) div F - s div F"
    and lens: "\<forall>f \<in> set (fragments b). length f = F"
    and slack: "\<forall>c \<in> set (drop (off + (e - s)) cs). c = CHR 0x00"
    using inv by (simp_all add: Buffer_inv_def Buffer_slack_def s_def e_def L_def F_def off_def cs_def)
  have offF: "off < F" using F by (simp add: off_def)
  have left: "1 \<le> left" "left \<le> r" "off + left \<le> F" "left = min (F - off) r"
    using r(1) offF by (auto simp: left_def F_def off_def min_def)
  have sl: "s + left \<le> e" using left(1,2) r(2) unfolding s_def e_def by linarith
  have s_lt_e: "s < e" using sl left(1) by simp
  have "s div F * F \<le> s" by simp
  have "s div F + 1 \<le> (e + F - 1) div F"
  proof -
    have "(s div F + 1) * F \<le> s + F" by simp
    also have "\<dots> \<le> e + F - 1" using s_lt_e by simp
    finally have "((s div F + 1) * F) div F \<le> (e + F - 1) div F" by (rule div_le_mono)
    then show ?thesis using F by simp
  qed
  then have L1: "1 \<le> L" using L by simp
  then obtain f fs where ffs: "fragments b = f # fs" by (cases "fragments b") (auto simp: L_def)
  have lf: "length f = F" and lfs: "\<forall>g \<in> set fs. length g = F" using lens ffs by auto
  have cs: "cs = f @ concat fs" by (simp add: cs_def ffs)
  have s_decomp: "s = off + (s div F) * F" by (simp add: off_def s_def)
  have modeq: "(s + left) mod F = (off + left) mod F"
    by (simp add: off_def s_def mod_add_left_eq)
  have full: "(s + left) mod F = 0 \<longleftrightarrow> off + left = F"
    using left(1,3) modeq by (cases "off + left = F") auto
  have mod': "(s + left) mod F = (if off + left = F then 0 else off + left)"
    using left(3) modeq by (cases "off + left = F") auto
  have "s + left = (off + left) + (s div F) * F" using s_decomp by simp
  then have "(s + left) div F = (off + left) div F + s div F"
    using F by (metis div_mult_self1 add.commute less_numeral_extra(3))
  then have div': "(s + left) div F = (if off + left = F then s div F + 1 else s div F)"
    using left(3) F by (cases "off + left = F") auto
  define fs1 where "fs1 = (if (s + left) mod F = 0 then fs else f # fs)"
  define b1 where "b1 = b\<lparr>start := s + left, fragments := fs1\<rparr>"
  have key: "drop ((s + left) mod F) (concat fs1) = drop (off + left) cs"
    using lf left(1) by (cases "off + left = F") (auto simp: fs1_def mod' cs)
  have copied: "take left (drop off f) = take left (Buffer_contents b)"
  proof -
    have "take left (drop off cs) = take left (drop off f)"
      using left(3) lf by (simp add: cs)
    moreover have "left \<le> e - s" using sl by simp
    then have "take left (Buffer_contents b) = take left (drop off cs)"
      by (simp add: Buffer_contents_def s_def e_def cs_def off_def F_def min_absorb1)
    ultimately show ?thesis by simp
  qed
  have contents: "Buffer_contents b1 = drop left (Buffer_contents b)"
  proof -
    have "Buffer_contents b1 = take (e - (s + left)) (drop (off + left) cs)"
      using key by (simp add: Buffer_contents_def b1_def e_def F_def)
    also have "\<dots> = drop left (take (e - s) (drop off cs))"
      by (simp add: drop_take add.commute)
    finally show ?thesis
      by (simp add: Buffer_contents_def s_def e_def cs_def off_def F_def)
  qed
  have slack1: "Buffer_slack b1 = drop (off + (e - s)) cs"
  proof -
    have "Buffer_slack b1 = drop (e - (s + left)) (drop ((s + left) mod F) (concat fs1))"
      by (simp add: Buffer_slack_def b1_def e_def F_def add.commute)
    also have "\<dots> = drop (e - (s + left) + (off + left)) cs"
      unfolding key by simp
    also have "e - (s + left) + (off + left) = off + (e - s)" using sl by simp
    finally show ?thesis .
  qed
  have count: "length fs1 = (e + F - 1) div F - (s + left) div F"
    using L L1 ffs by (auto simp: fs1_def full div' L_def)
  have lens1: "\<forall>g \<in> set fs1. length g = F" using lf lfs by (auto simp: fs1_def)
  have inv1: "Buffer_inv b1"
    unfolding Buffer_inv_def using sl eM lens1 count slack slack1
    by (simp add: b1_def e_def F_def[symmetric])
  have nowrap: "(s + left) mod SIZE_MOD = s + left" using sl eM by simp
  show ?thesis
    using ffs copied nowrap inv1 contents
    unfolding b1_def fs1_def s_def off_def F_def by blast
qed


lemma Buffer_inv_length:
  assumes "Buffer_inv b"
  shows "start b mod HTTP_BUFFER_FRAGMENT_SIZE + (end' b - start b) \<le> length (concat (fragments b))"
proof -
  define F where "F = HTTP_BUFFER_FRAGMENT_SIZE"
  define L where "L = length (fragments b)"
  have F: "0 < F" by (simp add: F_def F_pos)
  have se: "start b \<le> end' b" and L: "L = (end' b + F - 1) div F - start b div F"
    and lens: "\<forall>f \<in> set (fragments b). length f = F"
    using assms by (simp_all add: Buffer_inv_def L_def F_def)
  have cs: "length (concat (fragments b)) = F * L"
    using lens by (simp add: length_concat_uniform L_def)
  show ?thesis
  proof (cases "end' b mod F = 0")
    case True
    then show ?thesis using frag_position(1)[OF F se L] by (simp add: cs F_def)
  next
    case False
    from frag_position(2)[OF F se L False]
    have 1: "1 \<le> L" and 2: "F * (L - 1) + end' b mod F = start b mod F + (end' b - start b)"
      by simp_all
    have "F * L = F * (L - 1) + F" using 1 by (cases L) simp_all
    moreover have "end' b mod F < F" using F by simp
    ultimately show ?thesis using 2 by (simp add: cs F_def)
  qed
qed

lemma Buffer_contents_length:
  "Buffer_inv b \<Longrightarrow> length (Buffer_contents b) = end' b - start b"
  using Buffer_inv_length[of b] by (simp add: Buffer_contents_def)

lemma Buffer_available:
  assumes "Buffer_inv b"
  shows "available b = end' b - start b"
proof -
  have se: "start b \<le> end' b" "end' b < SIZE_MOD"
    using assms by (simp_all add: Buffer_inv_def)
  then have eq: "end' b + SIZE_MOD - start b = (end' b - start b) + SIZE_MOD"
    by linarith
  have small: "end' b - start b < SIZE_MOD" using se by linarith
  have "(end' b + SIZE_MOD - start b) mod SIZE_MOD = (end' b - start b) mod SIZE_MOD"
    unfolding eq by (rule mod_add_self2)
  also have "\<dots> = end' b - start b" using small by (rule mod_less)
  finally show ?thesis unfolding available_def .
qed

lemma Buffer_read_loop_inv:
  assumes "Buffer_inv b" "r \<le> end' b - start b"
  shows "\<exists>b1. Buffer_read_loop copy b r
                 = Some (if copy then take r (Buffer_contents b) else [], b1) \<and>
              Buffer_inv b1 \<and> Buffer_contents b1 = drop r (Buffer_contents b) \<and>
              start b1 = start b + r \<and> end' b1 = end' b"
  using assms
proof (induction r arbitrary: b rule: less_induct)
  case (less r)
  show ?case
  proof (cases "r = 0")
    case True
    then show ?thesis using less.prems by (subst Buffer_read_loop.simps) simp
  next
    case False
    define left where
      "left = min (HTTP_BUFFER_FRAGMENT_SIZE - start b mod HTTP_BUFFER_FRAGMENT_SIZE) r"
    have left: "1 \<le> left" "left \<le> r"
      using False F_pos by (auto simp: left_def min_def Suc_leI)
    from read_step[OF less.prems(1) _ less.prems(2)] False
    obtain f fs where ffs: "fragments b = f # fs"
      and copied: "take left (drop (start b mod HTTP_BUFFER_FRAGMENT_SIZE) f)
                   = take left (Buffer_contents b)"
      and nowrap: "(start b + left) mod SIZE_MOD = start b + left"
      and inv1: "Buffer_inv (b\<lparr>start := start b + left,
                          fragments := (if (start b + left) mod HTTP_BUFFER_FRAGMENT_SIZE = 0
                                        then fs else f # fs)\<rparr>)"
      and cont1: "Buffer_contents (b\<lparr>start := start b + left,
                          fragments := (if (start b + left) mod HTTP_BUFFER_FRAGMENT_SIZE = 0
                                        then fs else f # fs)\<rparr>) = drop left (Buffer_contents b)"
      unfolding left_def by blast
    define b' where "b' = b\<lparr>start := start b + left,
                          fragments := (if (start b + left) mod HTTP_BUFFER_FRAGMENT_SIZE = 0
                                        then fs else f # fs)\<rparr>"
    have "r - left < r" using left False by simp
    moreover have "r - left \<le> end' b' - start b'"
      using less.prems(2) left by (simp add: b'_def)
    ultimately obtain b1 where
      rec: "Buffer_read_loop copy b' (r - left)
              = Some (if copy then take (r - left) (Buffer_contents b') else [], b1)"
      and b1: "Buffer_inv b1" "Buffer_contents b1 = drop (r - left) (Buffer_contents b')"
        "start b1 = start b' + (r - left)" "end' b1 = end' b'"
      using less.IH[of "r - left" b'] inv1 unfolding b'_def by blast
    have tk: "take left (Buffer_contents b) @ take (r - left) (drop left (Buffer_contents b))
              = take r (Buffer_contents b)"
      using left(2) by (metis le_add_diff_inverse take_add)
    have unfold: "Buffer_read_loop copy b r
            = (case Buffer_read_loop copy b' (r - left) of
                 None \<Rightarrow> None
               | Some (out, b1) \<Rightarrow>
                   Some ((if copy then take left (Buffer_contents b) else []) @ out, b1))"
      using Buffer_read_loop.simps[of copy b r, unfolded Let_def, folded left_def]
        False nowrap copied
      by (cases copy; cases "(start b + left) mod HTTP_BUFFER_FRAGMENT_SIZE = 0")
         (simp_all add: ffs b'_def)
    have "Buffer_read_loop copy b r
            = Some (if copy then take r (Buffer_contents b) else [], b1)"
      using rec cont1 tk by (simp add: unfold b'_def[symmetric])
    moreover have "Buffer_contents b1 = drop r (Buffer_contents b)"
      using b1(2) cont1 left(2) by (simp add: b'_def)
    moreover have "start b1 = start b + r" "end' b1 = end' b"
      using b1(3,4) left(2) by (simp_all add: b'_def)
    ultimately show ?thesis using b1(1) by blast
  qed
qed

lemma Buffer_inv_init: "Buffer_inv Buffer_init"
  using F_pos
  by (simp add: Buffer_inv_def Buffer_init_def Buffer_slack_def SIZE_MOD_def)

lemma Buffer_contents_init: "Buffer_contents Buffer_init = []"
  by (simp add: Buffer_contents_def Buffer_init_def)

lemma Buffer_read_gen_inv:
  assumes "Buffer_inv b"
  shows "\<exists>b2. Buffer_read_gen copy b n
                 = Some (if copy then take n (Buffer_contents b) else [], b2) \<and>
              Buffer_inv b2 \<and> Buffer_contents b2 = drop n (Buffer_contents b) \<and>
              (end' b - start b \<le> n \<longrightarrow> b2 = Buffer_init)"
proof -
  define m where "m = (if n > available b then available b else n)"
  have av: "available b = end' b - start b" using assms by (rule Buffer_available)
  have m: "m \<le> end' b - start b" "m = min n (end' b - start b)"
    by (auto simp: m_def av)
  from Buffer_read_loop_inv[OF assms m(1), of copy]
  obtain b1 where
    loop: "Buffer_read_loop copy b m = Some (if copy then take m (Buffer_contents b) else [], b1)"
    and b1: "Buffer_inv b1" "Buffer_contents b1 = drop m (Buffer_contents b)"
      "start b1 = start b + m" "end' b1 = end' b"
    by blast
  have len: "length (Buffer_contents b) = end' b - start b"
    using assms by (rule Buffer_contents_length)
  have tk: "take m (Buffer_contents b) = take n (Buffer_contents b)"
    using len by (simp add: m(2) min_def)
  have dr: "drop m (Buffer_contents b) = drop n (Buffer_contents b)"
    using len by (simp add: m(2) min_def)
  define b2 where "b2 = (if start b1 = end' b1
                         then b1\<lparr>start := 0, end' := 0, fragments := []\<rparr> else b1)"
  have res: "Buffer_read_gen copy b n = Some (if copy then take n (Buffer_contents b) else [], b2)"
    using loop tk by (simp add: Buffer_read_gen_def Let_def m_def[symmetric] b2_def)
  have se: "start b \<le> end' b" using assms by (simp add: Buffer_inv_def)
  have reset: "b1\<lparr>start := 0, end' := 0, fragments := []\<rparr> = Buffer_init"
    by (simp add: Buffer_init_def)
  have inv2: "Buffer_inv b2" using b1(1) Buffer_inv_init by (simp add: b2_def reset)
  have "start b1 = end' b1 \<Longrightarrow> Buffer_contents b1 = []"
    by (simp add: Buffer_contents_def)
  then have cont2: "Buffer_contents b2 = drop n (Buffer_contents b)"
    using b1(2) dr by (auto simp: b2_def reset Buffer_contents_init)
  have "end' b - start b \<le> n \<Longrightarrow> b2 = Buffer_init"
    using b1(3,4) se by (simp add: b2_def reset m(2))
  then show ?thesis using res inv2 cont2 by blast
qed

lemma foldl_Buffer_write_inv:
  assumes "Buffer_inv b" "end' b + length (concat chunks) < SIZE_MOD"
  shows "Buffer_inv (foldl Buffer_write b chunks) \<and>
         Buffer_contents (foldl Buffer_write b chunks) = Buffer_contents b @ concat chunks \<and>
         start (foldl Buffer_write b chunks) = start b \<and>
         end' (foldl Buffer_write b chunks) = end' b + length (concat chunks)"
  using assms
proof (induction chunks arbitrary: b)
  case Nil
  then show ?case by simp
next
  case (Cons c chunks)
  have bound: "end' b + length c < SIZE_MOD" using Cons.prems(2) by simp
  note w = Buffer_write_inv[OF Cons.prems(1) bound]
  have "end' (Buffer_write b c) + length (concat chunks) < SIZE_MOD"
    using w Cons.prems(2) by simp
  from Cons.IH[OF _ this] w show ?case by simp
qed

text \<open>
  Claim C9. Whatever the bytes and however they are split over successive calls of
  \<open>write\<close> on an empty buffer, one \<open>read\<close> of as many bytes as were written returns exactly
  these bytes in order, and leaves the buffer empty: \<open>available()\<close> is 0 (the buffer is
  back in its initial state, all fragments released). The number of bytes is a \<open>size_t\<close>.
\<close>

theorem Buffer_roundtrip:
  assumes "length (concat chunks) < SIZE_MOD"
  shows "Buffer_read (foldl Buffer_write Buffer_init chunks) (length (concat chunks))
           = Some (concat chunks, Buffer_init) \<and>
         available Buffer_init = 0"
proof -
  define b where "b = foldl Buffer_write Buffer_init chunks"
  have "end' Buffer_init + length (concat chunks) < SIZE_MOD"
    using assms by (simp add: Buffer_init_def)
  from foldl_Buffer_write_inv[OF Buffer_inv_init this]
  have inv: "Buffer_inv b" and cont: "Buffer_contents b = concat chunks"
    and se: "start b = 0" "end' b = length (concat chunks)"
    using Buffer_contents_init by (simp_all add: b_def) (simp_all add: Buffer_init_def)
  from Buffer_read_gen_inv[OF inv, of True "length (concat chunks)"]
  have "Buffer_read b (length (concat chunks)) = Some (concat chunks, Buffer_init)"
    using cont se by (auto simp: Buffer_read_def)
  then show ?thesis
    by (simp add: b_def available_def Buffer_init_def)
qed

theorem Buffer_roundtrip_witness:
  "length (concat [replicate 1000 (CHR ''a''), replicate 553 (CHR ''b'')]) < SIZE_MOD \<and>
   Buffer_read
     (foldl Buffer_write Buffer_init [replicate 1000 (CHR ''a''), replicate 553 (CHR ''b'')])
     (length (concat [replicate 1000 (CHR ''a''), replicate 553 (CHR ''b'')]))
     = Some (concat [replicate 1000 (CHR ''a''), replicate 553 (CHR ''b'')], Buffer_init) \<and>
   available Buffer_init = 0"
proof -
  have h: "length (concat [replicate 1000 (CHR ''a''), replicate 553 (CHR ''b'')]) < SIZE_MOD"
    by (simp add: SIZE_MOD_def)
  from Buffer_roundtrip[OF h] h show ?thesis by (intro conjI) (rule h, blast+)
qed

section \<open>Properties of \<open>readline\<close>\<close>

lemma readline_scan_spec:
  assumes "\<forall>f \<in> set frs. length f = HTTP_BUFFER_FRAGMENT_SIZE"
    and "i < HTTP_BUFFER_FRAGMENT_SIZE"
  shows "readline_scan eo frs i n cr =
     (if length (takeWhile (\<lambda>c. c \<noteq> CHR 0x0A) (drop i (concat frs))) < length (drop i (concat frs))
      then Some (Some (n + length (takeWhile (\<lambda>c. c \<noteq> CHR 0x0A) (drop i (concat frs))) + 1,
                       if takeWhile (\<lambda>c. c \<noteq> CHR 0x0A) (drop i (concat frs)) = [] then cr
                       else last (takeWhile (\<lambda>c. c \<noteq> CHR 0x0A) (drop i (concat frs))) = CHR 0x0D))
      else if (if frs = [] then i else 0) < eo then None else Some None)"
  using assms
proof (induction eo frs i n cr rule: readline_scan.induct)
  case (1 eo frs i n cr)
  show ?case
  proof (cases frs)
    case Nil
    then show ?thesis by (subst readline_scan.simps) simp
  next
    case (Cons f rest)
    define F where "F = HTTP_BUFFER_FRAGMENT_SIZE"
    have lf: "length f = F" and lrest: "\<forall>g \<in> set rest. length g = HTTP_BUFFER_FRAGMENT_SIZE"
      using "1.prems"(1) Cons by (auto simp: F_def)
    have iF: "i < F" using "1.prems"(2) by (simp add: F_def)
    define c where "c = f ! i"
    define frs' where "frs' = (if i + 1 \<ge> F then rest else frs)"
    define i' where "i' = (if i + 1 \<ge> F then 0 else i + 1)"
    define stream' where "stream' = drop i' (concat frs')"
    have d: "drop i f = c # drop (Suc i) f"
      using iF lf by (simp add: c_def Cons_nth_drop_Suc)
    have "drop i (concat frs) = drop i f @ concat rest"
      using iF lf by (simp add: Cons)
    moreover have "stream' = drop (Suc i) f @ concat rest"
      using iF lf by (auto simp: Cons stream'_def frs'_def i'_def)
    ultimately have stream: "drop i (concat frs) = c # stream'"
      using d by simp
    have i'F: "i' < HTTP_BUFFER_FRAGMENT_SIZE" using iF by (auto simp: i'_def F_def)
    have lens': "\<forall>g \<in> set frs'. length g = HTTP_BUFFER_FRAGMENT_SIZE"
      using lrest "1.prems"(1) by (auto simp: frs'_def)
    have exh: "(if frs' = [] then i' else 0) = 0"
      by (auto simp: frs'_def i'_def Cons)
    show ?thesis
    proof (cases "c = CHR 0x0A")
      case True
      then have scan: "readline_scan eo frs i n cr = Some (Some (n + 1, cr))"
        by (subst readline_scan.simps) (simp add: Cons c_def[symmetric])
      show ?thesis unfolding scan stream using True by simp
    next
      case False
      have rec: "readline_scan eo frs i n cr = readline_scan eo frs' i' (n + 1) (c = CHR 0x0D)"
        using False
        by (subst readline_scan.simps)
           (auto simp: Cons c_def[symmetric] frs'_def i'_def F_def)
      have IH: "readline_scan eo frs' i' (n + 1) (c = CHR 0x0D) =
         (if length (takeWhile (\<lambda>c. c \<noteq> CHR 0x0A) stream') < length stream'
          then Some (Some (n + 1 + length (takeWhile (\<lambda>c. c \<noteq> CHR 0x0A) stream') + 1,
                       if takeWhile (\<lambda>c. c \<noteq> CHR 0x0A) stream' = [] then c = CHR 0x0D
                       else last (takeWhile (\<lambda>c. c \<noteq> CHR 0x0A) stream') = CHR 0x0D))
          else if (if frs' = [] then i' else 0) < eo then None else Some None)"
      proof (cases "c = CHR 0x0D")
        case True
        show ?thesis
        proof (cases "i + 1 \<ge> F")
          case A: True
          from "1.IH"(1)[OF _ Cons _ A[unfolded F_def]] True lens' i'F A
          show ?thesis by (simp add: c_def frs'_def i'_def stream'_def Cons)
        next
          case A: False
          from "1.IH"(2)[OF _ Cons _ A[unfolded F_def]] True lens' i'F A
          show ?thesis by (simp add: c_def frs'_def i'_def stream'_def Cons)
        qed
      next
        case B: False
        show ?thesis
        proof (cases "i + 1 \<ge> F")
          case A: True
          from "1.IH"(3)[OF _ Cons _ _ A[unfolded F_def]] B False lens' i'F A
          show ?thesis by (simp add: c_def frs'_def i'_def stream'_def Cons)
        next
          case A: False
          from "1.IH"(4)[OF _ Cons _ _ A[unfolded F_def]] B False lens' i'F A
          show ?thesis by (simp add: c_def frs'_def i'_def stream'_def Cons)
        qed
      qed
      show ?thesis
        unfolding rec IH stream using False by (simp add: exh Cons)
    qed
  qed
qed


lemma Buffer_stream:
  "drop (start b mod HTTP_BUFFER_FRAGMENT_SIZE) (concat (fragments b))
     = Buffer_contents b @ Buffer_slack b"
proof -
  have "Buffer_slack b = drop (end' b - start b)
          (drop (start b mod HTTP_BUFFER_FRAGMENT_SIZE) (concat (fragments b)))"
    by (simp add: Buffer_slack_def add.commute)
  then show ?thesis
    by (simp only: Buffer_contents_def append_take_drop_id)
qed

lemma length_takeWhile_lt:
  "x \<in> set xs \<Longrightarrow> \<not> P x \<Longrightarrow> length (takeWhile P xs) < length xs"
  by (induction xs) auto

lemma Buffer_readline_scan:
  assumes inv: "Buffer_inv b"
  defines "pre \<equiv> takeWhile (\<lambda>c. c \<noteq> CHR 0x0A) (Buffer_contents b)"
  shows "readline_scan (end' b mod HTTP_BUFFER_FRAGMENT_SIZE) (fragments b)
           (start b mod HTTP_BUFFER_FRAGMENT_SIZE) 0 False =
         (if CHR 0x0A \<in> set (Buffer_contents b)
          then Some (Some (length pre + 1, pre \<noteq> [] \<and> last pre = CHR 0x0D))
          else if end' b mod HTTP_BUFFER_FRAGMENT_SIZE = 0 then Some None else None)"
proof -
  define stream where
    "stream = drop (start b mod HTTP_BUFFER_FRAGMENT_SIZE) (concat (fragments b))"
  have lens: "\<forall>f \<in> set (fragments b). length f = HTTP_BUFFER_FRAGMENT_SIZE"
    and nul: "\<forall>c \<in> set (Buffer_slack b). c = CHR 0x00"
    using inv by (simp_all add: Buffer_inv_def)
  have slack: "\<forall>c \<in> set (Buffer_slack b). c \<noteq> CHR 0x0A"
  proof
    fix c assume "c \<in> set (Buffer_slack b)"
    with nul have "c = CHR 0x00" by (rule bspec)
    then show "c \<noteq> CHR 0x0A" by simp
  qed
  have stream: "stream = Buffer_contents b @ Buffer_slack b"
    unfolding stream_def by (rule Buffer_stream)
  have off: "start b mod HTTP_BUFFER_FRAGMENT_SIZE < HTTP_BUFFER_FRAGMENT_SIZE"
    using F_pos by simp
  note spec = readline_scan_spec[OF lens off,
      of "end' b mod HTTP_BUFFER_FRAGMENT_SIZE" 0 False, folded stream_def]
  have empty: "fragments b = [] \<Longrightarrow> end' b mod HTTP_BUFFER_FRAGMENT_SIZE = 0"
  proof -
    assume e: "fragments b = []"
    show "end' b mod HTTP_BUFFER_FRAGMENT_SIZE = 0"
    proof (rule ccontr)
      assume nz: "end' b mod HTTP_BUFFER_FRAGMENT_SIZE \<noteq> 0"
      have "start b \<le> end' b"
        and "length (fragments b) = (end' b + HTTP_BUFFER_FRAGMENT_SIZE - 1) div
               HTTP_BUFFER_FRAGMENT_SIZE - start b div HTTP_BUFFER_FRAGMENT_SIZE"
        using inv by (simp_all add: Buffer_inv_def)
      from frag_position(2)[OF F_pos this nz] e show False by simp
    qed
  qed
  show ?thesis
  proof (cases "CHR 0x0A \<in> set (Buffer_contents b)")
    case True
    then have tw: "takeWhile (\<lambda>c. c \<noteq> CHR 0x0A) stream = pre"
      unfolding stream pre_def by (intro takeWhile_append1[of "CHR 0x0A"]) auto
    have "length pre < length (Buffer_contents b)"
      unfolding pre_def using True by (intro length_takeWhile_lt[of "CHR 0x0A"]) auto
    then have lt: "length pre < length stream" by (simp add: stream)
    show ?thesis unfolding spec tw using lt True by auto
  next
    case False
    then have "\<forall>c \<in> set stream. c \<noteq> CHR 0x0A" using slack by (auto simp: stream)
    then have tw: "takeWhile (\<lambda>c. c \<noteq> CHR 0x0A) stream = stream"
      by (simp add: takeWhile_eq_all_conv)
    show ?thesis unfolding spec tw using False empty by auto
  qed
qed


lemma take_takeWhile_prefix:
  "take (length (takeWhile P xs)) xs = takeWhile P xs"
  by (induction xs) auto

lemma Buffer_readline_found:
  assumes inv: "Buffer_inv b" and ml: "1 \<le> max_length"
    and nl: "CHR 0x0A \<in> set (Buffer_contents b)"
  defines "pre \<equiv> takeWhile (\<lambda>c. c \<noteq> CHR 0x0A) (Buffer_contents b)"
  defines "n \<equiv> (if length pre + 1 > max_length then max_length else length pre + 1)"
  defines "bk \<equiv> (if length pre + 1 > max_length then 1
                    else if pre \<noteq> [] \<and> last pre = CHR 0x0D then 2 else 1)"
  shows "\<exists>b2. Buffer_readline b max_length
                = Some (Some (take (n - bk) (Buffer_contents b)), b2) \<and>
              Buffer_inv b2 \<and> Buffer_contents b2 = drop n (Buffer_contents b)"
proof -
  define cs where "cs = Buffer_contents b"
  define cr0 where "cr0 \<longleftrightarrow> pre \<noteq> [] \<and> last pre = CHR 0x0D"
  define n0 where "n0 = length pre + 1"
  have scan: "readline_scan (end' b mod HTTP_BUFFER_FRAGMENT_SIZE) (fragments b)
           (start b mod HTTP_BUFFER_FRAGMENT_SIZE) 0 False = Some (Some (n0, cr0))"
    using Buffer_readline_scan[OF inv] nl by (simp add: pre_def cr0_def n0_def)
  have "length pre < length cs"
    unfolding pre_def cs_def using nl by (intro length_takeWhile_lt[of "CHR 0x0A"]) simp_all
  then have n0: "n0 \<le> length cs" by (simp add: n0_def)
  have n: "n = (if n0 > max_length then max_length else n0)" "n \<le> length cs" "1 \<le> n"
    using n0 ml by (auto simp: n_def n0_def)
  have bk: "bk = (if (if n0 > max_length then False else cr0) then 2 else 1)"
    by (simp add: bk_def cr0_def n0_def)
  have "cr0 \<Longrightarrow> 2 \<le> n0" by (cases pre) (simp_all add: cr0_def n0_def)
  then have bn: "bk \<le> n" using n(3) by (auto simp: bk n(1))
  from Buffer_read_gen_inv[OF inv, of True n]
  obtain b2 where rd: "Buffer_read b n = Some (take n cs, b2)"
    and b2: "Buffer_inv b2" "Buffer_contents b2 = drop n cs"
    by (auto simp: Buffer_read_def cs_def)
  have "Buffer_readline b max_length = Some (Some (take (n - bk) (take n cs)), b2)"
    unfolding Buffer_readline_def scan
    using rd bn n(2) by (simp add: Let_def n(1)[symmetric] bk[symmetric])
  moreover have "take (n - bk) (take n cs) = take (n - bk) cs"
    by (simp add: min_def)
  ultimately show ?thesis using b2 by (simp add: cs_def)
qed

lemma Buffer_readline_nodata:
  assumes "Buffer_inv b" "CHR 0x0A \<notin> set (Buffer_contents b)"
  shows "Buffer_readline b max_length =
           (if end' b mod HTTP_BUFFER_FRAGMENT_SIZE = 0 then Some (None, b) else None)"
  using Buffer_readline_scan[OF assms(1)] assms(2)
  by (simp add: Buffer_readline_def)

section \<open>Properties of the request\<close>

lemma char_eq_char_of:
  "c = char_of (n::nat) \<longleftrightarrow> (of_char c :: nat) = n mod 256"
  "char_of (n::nat) = c \<longleftrightarrow> (of_char c :: nat) = n mod 256"
proof -
  show "c = char_of n \<longleftrightarrow> (of_char c :: nat) = n mod 256"
  proof
    assume "c = char_of n"
    then show "(of_char c :: nat) = n mod 256" by simp
  next
    assume "(of_char c :: nat) = n mod 256"
    then have "char_of (of_char c :: nat) = char_of (n mod 256)" by simp
    then show "c = char_of n" by simp
  qed
  then show "char_of n = c \<longleftrightarrow> (of_char c :: nat) = n mod 256" by auto
qed

lemmas buffer_eval =
  Buffer_write.simps Buffer_read_loop.simps Buffer_read_gen_def Buffer_read_def consume_def
  get_def available_def memcpy_def new_Fragment_def Buffer_init_def clear_def
  HTTP_BUFFER_FRAGMENT_SIZE_def SIZE_MOD_def HTTP_MAX_LINE_LENGTH_def Let_def
  readline_scan.simps Buffer_readline_def nth_append

lemmas request_eval =
  AsyncHTTPRequest_init_def handleError_def error_def error_text_def requestCompleted_def
  close_client_def post_notifications_def processBodyData_def parseStatusLine_def
  parseHeader_def handleData_def handleData_lines.simps drain_buffer.simps
  sendData_loop.simps sendData_Buffer_def sendData_def handleConnect_def handleAck_def
  handleDisconnect_def handleTimeout_def handleError_code_def
  strchr_def skip_span_def c_str_def strcasecmp_eq_def tolower_def isdigit_def
  parseInteger_def size_to_int_def status_def contentLength_def read_def char_eq_char_of

lemmas send_eval =
  send_def Let_def URL_parse_def strchr_def USE_SSL_def AsyncHTTPRequest_init_def
  handleError_def error_def error_text_def example_url_def

lemma once_sent_eval:
  "once_sent = AsyncHTTPRequest_init\<lparr>mutex := True, client := True,
      buffer := Buffer_write Buffer_init
        (''GET /index.html HTTP/1.1'' @ CRLF @ ''Host: example.com'' @ CRLF @ CRLF),
      state := CONNECTING\<rparr>"
  apply (simp add: once_sent_def send_eval CRLF_def)
  apply (simp add: buffer_eval)
  done

lemma watched_request_eval:
  "watched_request = once_sent\<lparr>errorHandler := True\<rparr>"
  unfolding once_sent_eval
  apply (simp add: watched_request_def send_eval CRLF_def)
  apply (simp add: buffer_eval)
  done

lemma request_sent_eval:
  "request_sent = Some (AsyncHTTPRequest_init\<lparr>mutex := True, client := True,
      state := RECEIVING_STATUS_LINE\<rparr>)"
  unfolding request_sent_def once_sent_eval
  by (simp add: accepting_client_def CRLF_def buffer_eval request_eval)

lemma twice_sent_eval:
  "twice_sent = once_sent\<lparr>current_error := ERROR_IN_USE, state := ERROR,
      lastErrorString := ''Request already started''\<rparr>"
  unfolding twice_sent_def once_sent_eval
  by (simp add: send_eval)

text \<open>
  Claim C1 says that \<open>ERROR\<close> is absorbing: once entered, no later event changes the
  state tag or the recorded error. \<open>handleError\<close> and \<open>handleAck\<close> guard their
  assignments, \<open>handleConnect\<close> assigns \<open>SENDING_REQUEST\<close> whatever the state is. On the
  object of \<open>twice_sent\<close>, whose second \<open>send\<close> recorded \<open>ERROR_IN_USE\<close> while the
  transport was still connecting, the connect event leaves \<open>ERROR\<close> for
  \<open>RECEIVING_STATUS_LINE\<close>, and a later timeout replaces the recorded error.
\<close>

theorem error_state_left_on_connect:
  "state twice_sent = ERROR \<and> current_error twice_sent = ERROR_IN_USE \<and>
   map_option state (handleConnect accepting_client twice_sent) = Some RECEIVING_STATUS_LINE \<and>
   map_option (current_error \<circ> handleTimeout) (handleConnect accepting_client twice_sent)
     = Some ERROR_TIMEOUT"
  unfolding twice_sent_eval once_sent_eval
  by (simp add: accepting_client_def CRLF_def buffer_eval request_eval)

text \<open>
  Claim C2, as amended. On an object whose state is neither \<open>EMPTY\<close> nor \<open>ERROR\<close>,
  \<open>send\<close> returns \<open>ERROR_IN_USE\<close> and changes exactly three fields: the state becomes
  \<open>ERROR\<close>, the recorded error \<open>ERROR_IN_USE\<close> and the error string "Request already
  started"; the buffers, the parsed response and the notification flags stay as they
  are. In state \<open>ERROR\<close> it returns the error recorded before and changes nothing.
\<close>

theorem send_when_in_use:
  assumes "state r \<noteq> EMPTY"
  shows "send mutex_created connected method url content_type body r =
           (if state r = ERROR then (current_error r, r)
            else (ERROR_IN_USE,
                  r\<lparr>current_error := ERROR_IN_USE, state := ERROR,
                    lastErrorString := ''Request already started''\<rparr>))"
  using assms by (simp add: send_def handleError_def error_def error_text_def Let_def)

text \<open>
  The claim as stated fails: a second \<open>send\<close> while connecting moves the state from
  \<open>CONNECTING\<close> to \<open>ERROR\<close>, and a \<open>send\<close> after a timeout returns \<open>ERROR_TIMEOUT\<close>.
\<close>

theorem send_when_in_use_counterexample:
  "state once_sent = CONNECTING \<and>
   state (snd (send True True ''GET'' example_url None None once_sent)) = ERROR \<and>
   fst (send True True ''GET'' example_url None None (handleTimeout once_sent)) = ERROR_TIMEOUT"
  unfolding once_sent_eval
  by (simp add: send_eval request_eval)

text \<open>
  Claim C3 says that an event which moves the machine from a non-terminal state into
  \<open>ERROR\<close> sets the error notification flag, so that the error handler runs in the
  following \<open>post_notifications\<close>. \<open>handleError\<close> sets the flag only when the state was
  \<open>EMPTY\<close>. On a connecting request with a registered error handler, a timeout, a
  disconnect and a transport error each end in \<open>ERROR\<close> with no handler call.
\<close>

theorem error_callback_not_invoked:
  "state watched_request = CONNECTING \<and> errorHandler watched_request \<and>
   state (handleTimeout watched_request) = ERROR \<and>
   current_error (handleTimeout watched_request) = ERROR_TIMEOUT \<and>
   notify_error (handleError ERROR_TIMEOUT None watched_request) = False \<and>
   calls (handleTimeout watched_request) = [] \<and>
   calls (handleDisconnect watched_request) = [] \<and>
   calls (handleError_code ''reset'' watched_request) = []"
  unfolding watched_request_eval once_sent_eval
  by (simp add: request_eval)

text \<open>
  Claim C7 says that \<open>get\<close> and \<open>post\<close> return the value of the \<open>send\<close> call they make.
  Both bodies call \<open>send\<close> and end without a \<open>return\<close> statement: the calls have no
  value, where \<open>send\<close> with the same arguments returns \<open>ERROR_OK\<close>.
\<close>

theorem get_returns_no_value:
  "fst (get_request True True example_url AsyncHTTPRequest_init) = None \<and>
   fst (send True True ''GET'' example_url None None AsyncHTTPRequest_init) = ERROR_OK \<and>
   fst (post True True example_url None None AsyncHTTPRequest_init) = None \<and>
   fst (send True True ''POST'' example_url None None AsyncHTTPRequest_init) = ERROR_OK"
  by (simp add: get_request_def post_def send_eval)


lemma post_notifications_keeps:
  "state (post_notifications r) = state r"
  "current_error (post_notifications r) = current_error r"
  "lastErrorString (post_notifications r) = lastErrorString r"
  "responseBody (post_notifications r) = responseBody r"
  "dataReceived (post_notifications r) = dataReceived r"
  by (simp_all add: post_notifications_def close_client_def Let_def)

text \<open>
  Claim C8. A disconnect in \<open>RECEIVING_BODY\<close> with neither chunked encoding nor a
  content length completes the request: the state is \<open>COMPLETE\<close>, the recorded error and
  its text, the body buffer and the count of received bytes are as before. A disconnect
  in \<open>CONNECTING\<close>, \<open>SENDING_REQUEST\<close>, \<open>SENDING_BODY\<close>, \<open>RECEIVING_STATUS_LINE\<close>,
  \<open>RECEIVING_HEADERS\<close>, or in \<open>RECEIVING_BODY\<close> with chunked encoding or a known length,
  ends in \<open>ERROR\<close> with \<open>ERROR_CONNECTION_CLOSED\<close> recorded.
\<close>

theorem handleDisconnect_outcome:
  "(state r = RECEIVING_BODY \<and> \<not> chunkedResponse r \<and> \<not> haveContentLength r \<longrightarrow>
      state (handleDisconnect r) = COMPLETE \<and>
      current_error (handleDisconnect r) = current_error r \<and>
      lastErrorString (handleDisconnect r) = lastErrorString r \<and>
      responseBody (handleDisconnect r) = responseBody r \<and>
      dataReceived (handleDisconnect r) = dataReceived r) \<and>
   (state r = CONNECTING \<or> state r = SENDING_REQUEST \<or> state r = SENDING_BODY \<or>
    state r = RECEIVING_STATUS_LINE \<or> state r = RECEIVING_HEADERS \<or>
    state r = RECEIVING_BODY \<and> (chunkedResponse r \<or> haveContentLength r) \<longrightarrow>
      state (handleDisconnect r) = ERROR \<and>
      current_error (handleDisconnect r) = ERROR_CONNECTION_CLOSED)"
  by (cases "state r")
     (auto simp: handleDisconnect_def post_notifications_keeps requestCompleted_def
        handleError_def Let_def)

theorem handleDisconnect_outcome_witness:
  "state (handleDisconnect (AsyncHTTPRequest_init\<lparr>state := RECEIVING_BODY\<rparr>)) = COMPLETE \<and>
   current_error (handleDisconnect (AsyncHTTPRequest_init\<lparr>state := RECEIVING_BODY\<rparr>))
     = ERROR_OK \<and>
   state (handleDisconnect (AsyncHTTPRequest_init\<lparr>state := RECEIVING_HEADERS\<rparr>)) = ERROR \<and>
   current_error (handleDisconnect (AsyncHTTPRequest_init\<lparr>state := RECEIVING_HEADERS\<rparr>))
     = ERROR_CONNECTION_CLOSED \<and>
   state (handleDisconnect
            (AsyncHTTPRequest_init\<lparr>state := RECEIVING_BODY, haveContentLength := True\<rparr>))
     = ERROR"
  using handleDisconnect_outcome[of "AsyncHTTPRequest_init\<lparr>state := RECEIVING_BODY\<rparr>"]
    handleDisconnect_outcome[of "AsyncHTTPRequest_init\<lparr>state := RECEIVING_HEADERS\<rparr>"]
    handleDisconnect_outcome[of
      "AsyncHTTPRequest_init\<lparr>state := RECEIVING_BODY, haveContentLength := True\<rparr>"]
  by (simp add: AsyncHTTPRequest_init_def)







lemma content_length_exchange_eval:
  "content_length_exchange =
     Some (AsyncHTTPRequest_init\<lparr>mutex := True, state := COMPLETE, httpStatus := 200,
        responseContentLength := 11, haveContentLength := True, dataReceived := 11,
        responseBody := Some \<lparr>start = 0, end' = 11,
          fragments = [''Hello World'' @ replicate 501 (CHR 0x00)]\<rparr>\<rparr>)"
  unfolding content_length_exchange_def request_sent_eval
  by (simp add: content_length_headers_def CRLF_def buffer_eval request_eval)

lemma processBodyData_clamp:
  assumes hcl: "haveContentLength r"
    and le: "dataReceived r \<le> responseContentLength r"
    and nowrap: "dataReceived r + length data < SIZE_MOD"
  shows "\<exists>r'. processBodyData data r = Some r' \<and>
           responseBody r' =
             Some (Buffer_write (case responseBody r of None \<Rightarrow> Buffer_init | Some b \<Rightarrow> b)
                     (take (responseContentLength r - dataReceived r) data)) \<and>
           dataReceived r' =
             dataReceived r + min (length data) (responseContentLength r - dataReceived r) \<and>
           dataReceived r' \<le> responseContentLength r \<and>
           responseContentLength r' = responseContentLength r \<and>
           (state r' = COMPLETE \<longleftrightarrow>
              state r = COMPLETE \<or> responseContentLength r \<le> dataReceived r + length data)"
proof (cases "dataReceived r + length data > responseContentLength r")
  case True
  define k where "k = responseContentLength r - dataReceived r"
  have cl: "responseContentLength r < SIZE_MOD" using True nowrap by simp
  have "responseContentLength r + SIZE_MOD - dataReceived r = k + SIZE_MOD"
    using le by (simp add: k_def)
  then have "(responseContentLength r + SIZE_MOD - dataReceived r) mod SIZE_MOD = k mod SIZE_MOD"
    by (simp only: mod_add_self2)
  also have "\<dots> = k" using cl by (simp add: k_def)
  finally have clamp:
    "(responseContentLength r + SIZE_MOD - dataReceived r) mod SIZE_MOD = k" .
  have k: "k < length data" "dataReceived r + k = responseContentLength r"
    using True le by (simp_all add: k_def)
  have m: "(dataReceived r + length data) mod SIZE_MOD = dataReceived r + length data"
    "responseContentLength r mod SIZE_MOD = responseContentLength r"
    using nowrap cl by simp_all
  show ?thesis
    using True hcl k m clamp
    by (simp add: processBodyData_def Let_def requestCompleted_def k_def[symmetric] min_def)
next
  case False
  then have fit: "length data \<le> responseContentLength r - dataReceived r" by simp
  have m: "(dataReceived r + length data) mod SIZE_MOD = dataReceived r + length data"
    using nowrap by simp
  show ?thesis
    using False hcl fit m
    by (auto simp: processBodyData_def Let_def requestCompleted_def min_def)
qed

text \<open>
  Claim C5, as amended. With \<open>Content-Length: 11\<close> and the body arriving as "Hello "
  and "World!", the request is \<open>COMPLETE\<close> after the second call, \<open>contentLength()\<close> is
  11, and the body is "Hello World": the eleven bytes the header declared, without the
  twelfth. In general, when the content length is known, the count of received bytes
  does not exceed it and the sum with the new bytes does not overflow \<open>size_t\<close>,
  \<open>processBodyData\<close> appends only the bytes that still fit, and the count stays within
  the content length.
\<close>

theorem content_length_body_clamped:
  "map_option state content_length_exchange = Some COMPLETE \<and>
   map_option contentLength content_length_exchange = Some 11 \<and>
   map_option fst (Option.bind content_length_exchange (read 100)) = Some ''Hello World'' \<and>
   (haveContentLength r \<and> dataReceived r \<le> responseContentLength r \<and>
    dataReceived r + length data < SIZE_MOD \<longrightarrow>
      (\<exists>r'. processBodyData data r = Some r' \<and>
         responseBody r' =
           Some (Buffer_write (case responseBody r of None \<Rightarrow> Buffer_init | Some b \<Rightarrow> b)
                   (take (responseContentLength r - dataReceived r) data)) \<and>
         dataReceived r' =
           dataReceived r + min (length data) (responseContentLength r - dataReceived r) \<and>
         dataReceived r' \<le> responseContentLength r))"
proof -
  have "map_option state content_length_exchange = Some COMPLETE"
    "map_option contentLength content_length_exchange = Some 11"
    unfolding content_length_exchange_eval
    by (simp_all add: AsyncHTTPRequest_init_def contentLength_def)
  moreover have
    "map_option fst (Option.bind content_length_exchange (read 100)) = Some ''Hello World''"
    unfolding content_length_exchange_eval
    by (simp add: AsyncHTTPRequest_init_def buffer_eval read_def)
  ultimately show ?thesis using processBodyData_clamp[of r data] by blast
qed

text \<open>The claim as stated fails: the accumulated body is not "Hello World!".\<close>

theorem content_length_body_counterexample:
  "map_option fst (Option.bind content_length_exchange (read 100)) \<noteq> Some ''Hello World!''"
  unfolding content_length_exchange_eval
  by (simp add: AsyncHTTPRequest_init_def buffer_eval read_def)


theorem content_length_body_clamped_witness:
  "(haveContentLength (AsyncHTTPRequest_init\<lparr>state := RECEIVING_BODY,
        haveContentLength := True, responseContentLength := 11, dataReceived := 6\<rparr>) \<and>
    dataReceived (AsyncHTTPRequest_init\<lparr>state := RECEIVING_BODY,
        haveContentLength := True, responseContentLength := 11, dataReceived := 6\<rparr>)
      \<le> responseContentLength (AsyncHTTPRequest_init\<lparr>state := RECEIVING_BODY,
        haveContentLength := True, responseContentLength := 11, dataReceived := 6\<rparr>) \<and>
    dataReceived (AsyncHTTPRequest_init\<lparr>state := RECEIVING_BODY,
        haveContentLength := True, responseContentLength := 11, dataReceived := 6\<rparr>)
      + length ''World!'' < SIZE_MOD) \<and>
   (\<exists>r'. processBodyData ''World!'' (AsyncHTTPRequest_init\<lparr>state := RECEIVING_BODY,
        haveContentLength := True, responseContentLength := 11, dataReceived := 6\<rparr>) = Some r' \<and>
      responseBody r' = Some (Buffer_write Buffer_init ''World'') \<and>
      dataReceived r' = 11)"
proof -
  define R where "R = AsyncHTTPRequest_init\<lparr>state := RECEIVING_BODY,
        haveContentLength := True, responseContentLength := 11, dataReceived := 6\<rparr>"
  have h: "haveContentLength R \<and> dataReceived R \<le> responseContentLength R \<and>
           dataReceived R + length ''World!'' < SIZE_MOD"
    by (simp add: R_def AsyncHTTPRequest_init_def SIZE_MOD_def)
  from content_length_body_clamped[of R "''World!''"] h
  obtain r' where "processBodyData ''World!'' R = Some r'"
    and "responseBody r' =
           Some (Buffer_write (case responseBody R of None \<Rightarrow> Buffer_init | Some b \<Rightarrow> b)
                   (take (responseContentLength R - dataReceived R) ''World!''))"
    and "dataReceived r' =
           dataReceived R + min (length ''World!'') (responseContentLength R - dataReceived R)"
    by blast
  then have "processBodyData ''World!'' R = Some r' \<and>
      responseBody r' = Some (Buffer_write Buffer_init ''World'') \<and> dataReceived r' = 11"
    by (simp add: R_def AsyncHTTPRequest_init_def)
  then show ?thesis using h unfolding R_def by blast
qed

theorem send_when_in_use_witness:
  "state once_sent \<noteq> EMPTY \<and>
   send True True ''POST'' example_url None None once_sent =
     (ERROR_IN_USE, once_sent\<lparr>current_error := ERROR_IN_USE, state := ERROR,
        lastErrorString := ''Request already started''\<rparr>) \<and>
   state (handleTimeout once_sent) \<noteq> EMPTY \<and>
   send True True ''POST'' example_url None None (handleTimeout once_sent) =
     (ERROR_TIMEOUT, handleTimeout once_sent)"
proof -
  have s1: "state once_sent = CONNECTING"
    by (simp add: once_sent_eval AsyncHTTPRequest_init_def)
  have s2: "state (handleTimeout once_sent) = ERROR"
    "current_error (handleTimeout once_sent) = ERROR_TIMEOUT"
    using s1 by (simp_all add: handleTimeout_def handleError_def post_notifications_keeps Let_def)
  have h1: "state once_sent \<noteq> EMPTY" using s1 by simp
  have h2: "state (handleTimeout once_sent) \<noteq> EMPTY" using s2 by simp
  from send_when_in_use[OF h1, of True True "''POST''" example_url None None]
    send_when_in_use[OF h2, of True True "''POST''" example_url None None]
  show ?thesis using s1 s2 by simp
qed

lemma chunked_started_eval:
  "chunked_started =
     Some (AsyncHTTPRequest_init\<lparr>mutex := True, client := True, state := RECEIVING_BODY,
        httpStatus := 200, chunkedResponse := True, inChunkSize := True\<rparr>)"
  unfolding chunked_started_def request_sent_eval
  by (simp add: chunked_headers_def CRLF_def buffer_eval request_eval)

lemma chunked_exchange_eval:
  "chunked_exchange =
     Some (AsyncHTTPRequest_init\<lparr>mutex := True, client := True, state := RECEIVING_BODY,
        httpStatus := 200, chunkedResponse := True, inChunkSize := True, dataReceived := 27,
        responseBody := Some \<lparr>start = 0, end' = 27,
          fragments = [chunk1 @ chunk2 @ chunk3 @ replicate 485 (CHR 0x00)]\<rparr>\<rparr>)"
  unfolding chunked_exchange_def chunked_started_eval
  by (simp add: chunk1_def chunk2_def chunk3_def CRLF_def buffer_eval request_eval)

lemma chunk_size_line_stuck:
  assumes "i < length data" and "data ! i = CHR 0x0D"
  shows "chunk_size_line data i r = None"
proof -
  have ret: "\<not> (j < length d \<and> d ! j = CHR 0x0D)"
    if a: "chunk_size_line d j q = Some y" for d j q y
  proof (rule chunk_size_line.raw_induct
      [where P = "\<lambda>d j q y. \<not> (j < length d \<and> d ! j = CHR 0x0D)", OF _ a])
    fix f :: "char list \<Rightarrow> nat \<Rightarrow> AsyncHTTPRequest \<Rightarrow>
              (AsyncHTTPRequest + char list \<times> AsyncHTTPRequest) option"
      and d' j' q' y'
    assume IH: "\<And>d j q y. f d j q = Some y \<Longrightarrow> \<not> (j < length d \<and> d ! j = CHR 0x0D)"
    assume eq: "(if j' < length d'
      then if d' ! j' = CHR 0x0D then f d' j' q'
           else if d' ! j' = CHR 0x0A
                then if chunkSize q' = 0
                     then Some (Inl (requestCompleted (q'\<lparr>inChunkSize := False\<rparr>)))
                     else f (drop j' d') (j' + 1) (q'\<lparr>inChunkSize := False\<rparr>)
                else f d' (j' + 1) q'
      else Some (Inr (d', q'))) = Some y'"
    show "\<not> (j' < length d' \<and> d' ! j' = CHR 0x0D)"
    proof
      assume stuck: "j' < length d' \<and> d' ! j' = CHR 0x0D"
      then have "f d' j' q' = Some y'" using eq by simp
      then have "\<not> (j' < length d' \<and> d' ! j' = CHR 0x0D)" by (rule IH)
      then show False using stuck by (rule notE)
    qed
  qed
  show ?thesis
  proof (cases "chunk_size_line data i r")
    case None
    then show ?thesis .
  next
    case (Some y)
    from ret[OF this] assms show ?thesis by simp
  qed
qed

lemma processChunkedBodyData_chunk1:
  assumes "inChunkSize r"
  shows "processChunkedBodyData chunk1 r = None"
proof -
  have d: "chunk_size_digits chunk1 0 (chunkSize r)
             = (1, (chunkSize r * 10 + 5) mod SIZE_MOD)"
    by (simp add: chunk_size_digits.simps chunk1_def CRLF_def isdigit_def)
  have "chunk_size_line chunk1 1 q = None" for q
    by (rule chunk_size_line_stuck) (simp_all add: chunk1_def CRLF_def)
  moreover have "chunk1 \<noteq> []" by (simp add: chunk1_def)
  ultimately show ?thesis
    using assms d
    by (subst processChunkedBodyData.simps) simp
qed

text \<open>
  Claim C4 says that a chunked body made of the chunks "Hello" and " World!" and the
  closing chunk is decoded to "Hello World!" and ends in \<open>COMPLETE\<close>, and that chunked
  processing terminates. \<open>handleData\<close> never calls \<open>processChunkedBodyData\<close>: after the
  three chunks the state is still \<open>RECEIVING_BODY\<close> and the body holds the chunk framing
  byte for byte. \<open>processChunkedBodyData\<close> itself does not return on the first chunk:
  its loop reaches the carriage return and executes \<open>continue\<close> without advancing.
\<close>

theorem chunked_body_not_decoded:
  "map_option state chunked_exchange = Some RECEIVING_BODY \<and>
   map_option fst (Option.bind chunked_exchange (read 100)) = Some (chunk1 @ chunk2 @ chunk3) \<and>
   Option.bind chunked_started (processChunkedBodyData chunk1) = None"
proof -
  have "map_option state chunked_exchange = Some RECEIVING_BODY"
    unfolding chunked_exchange_eval by (simp add: AsyncHTTPRequest_init_def)
  moreover have
    "map_option fst (Option.bind chunked_exchange (read 100)) = Some (chunk1 @ chunk2 @ chunk3)"
    unfolding chunked_exchange_eval
    by (simp add: AsyncHTTPRequest_init_def chunk1_def chunk2_def chunk3_def CRLF_def
        buffer_eval read_def)
  moreover have "Option.bind chunked_started (processChunkedBodyData chunk1) = None"
    unfolding chunked_started_eval
    by (simp add: processChunkedBodyData_chunk1 AsyncHTTPRequest_init_def)
  ultimately show ?thesis by blast
qed


lemma Buffer_write_init:
  assumes "length data < SIZE_MOD"
  shows "Buffer_inv (Buffer_write Buffer_init data)"
    and "Buffer_contents (Buffer_write Buffer_init data) = data"
    and "end' (Buffer_write Buffer_init data) = length data"
proof -
  have "end' Buffer_init + length data < SIZE_MOD" using assms by (simp add: Buffer_init_def)
  from Buffer_write_inv[OF Buffer_inv_init this]
  show "Buffer_inv (Buffer_write Buffer_init data)"
    and "Buffer_contents (Buffer_write Buffer_init data) = data"
    and "end' (Buffer_write Buffer_init data) = length data"
    using Buffer_contents_init by (simp_all add: Buffer_init_def)
qed

text \<open>
  What \<open>readline\<close> does where it returns, on a buffer that satisfies the class invariant
  and with \<open>max_length\<close> at least 1. When a newline is buffered and the bytes before it
  are fewer than \<open>max_length\<close>, it returns these bytes without a carriage return that
  ends them, and consumes them and the newline, so that the next call starts after the
  line. When the bytes before the newline are \<open>max_length\<close> or more, it returns the first
  \<open>max_length - 1\<close> bytes and consumes \<open>max_length\<close> bytes: the rest of the line stays in
  the buffer. When no newline is buffered and \<open>end\<close> is a multiple of the fragment size,
  it returns \<open>NULL\<close> and leaves the buffer as it is.
\<close>

lemma readline_lines:
  assumes "Buffer_inv b" and "1 \<le> max_length"
  shows
    "(CHR 0x0A \<notin> set (Buffer_contents b) \<and> end' b mod HTTP_BUFFER_FRAGMENT_SIZE = 0 \<longrightarrow>
        Buffer_readline b max_length = Some (None, b)) \<and>
     (CHR 0x0A \<in> set (Buffer_contents b) \<and>
      length (takeWhile (\<lambda>c. c \<noteq> CHR 0x0A) (Buffer_contents b)) < max_length \<longrightarrow>
        (\<exists>b'. Buffer_readline b max_length =
                 Some (Some (strip_cr (takeWhile (\<lambda>c. c \<noteq> CHR 0x0A) (Buffer_contents b))), b') \<and>
              Buffer_inv b' \<and>
              Buffer_contents b' =
                drop (length (takeWhile (\<lambda>c. c \<noteq> CHR 0x0A) (Buffer_contents b)) + 1)
                  (Buffer_contents b))) \<and>
     (CHR 0x0A \<in> set (Buffer_contents b) \<and>
      max_length \<le> length (takeWhile (\<lambda>c. c \<noteq> CHR 0x0A) (Buffer_contents b)) \<longrightarrow>
        (\<exists>b'. Buffer_readline b max_length =
                 Some (Some (take (max_length - 1) (Buffer_contents b)), b') \<and>
              Buffer_inv b' \<and>
              Buffer_contents b' = drop max_length (Buffer_contents b)))"
proof -
  define cs where "cs = Buffer_contents b"
  define pre where "pre = takeWhile (\<lambda>c. c \<noteq> CHR 0x0A) cs"
  have tp: "take (length pre) cs = pre"
    unfolding pre_def by (rule take_takeWhile_prefix)
  have "take (length pre - 1) cs = take (length pre - 1) (take (length pre) cs)"
    by (simp add: min_def)
  then have tb: "take (length pre - 1) cs = butlast pre"
    by (simp add: tp butlast_conv_take)
  have strip: "take (length pre + 1 - (if pre \<noteq> [] \<and> last pre = CHR 0x0D then 2 else 1)) cs
               = strip_cr pre"
    using tp tb by (simp add: strip_cr_def)
  have nodata: "CHR 0x0A \<notin> set cs \<and> end' b mod HTTP_BUFFER_FRAGMENT_SIZE = 0 \<longrightarrow>
        Buffer_readline b max_length = Some (None, b)"
    using Buffer_readline_nodata[OF assms(1), of max_length] by (simp add: cs_def)
  have short: "CHR 0x0A \<in> set cs \<and> length pre < max_length \<longrightarrow>
        (\<exists>b'. Buffer_readline b max_length = Some (Some (strip_cr pre), b') \<and>
              Buffer_inv b' \<and> Buffer_contents b' = drop (length pre + 1) cs)"
  proof
    assume a: "CHR 0x0A \<in> set cs \<and> length pre < max_length"
    then have nl: "CHR 0x0A \<in> set (Buffer_contents b)" by (simp add: cs_def)
    from Buffer_readline_found[OF assms nl] a strip
    show "\<exists>b'. Buffer_readline b max_length = Some (Some (strip_cr pre), b') \<and>
              Buffer_inv b' \<and> Buffer_contents b' = drop (length pre + 1) cs"
      by (simp add: cs_def[symmetric] pre_def[symmetric])
  qed
  have long: "CHR 0x0A \<in> set cs \<and> max_length \<le> length pre \<longrightarrow>
        (\<exists>b'. Buffer_readline b max_length = Some (Some (take (max_length - 1) cs), b') \<and>
              Buffer_inv b' \<and> Buffer_contents b' = drop max_length cs)"
  proof
    assume a: "CHR 0x0A \<in> set cs \<and> max_length \<le> length pre"
    then have nl: "CHR 0x0A \<in> set (Buffer_contents b)" by (simp add: cs_def)
    from Buffer_readline_found[OF assms nl] a
    show "\<exists>b'. Buffer_readline b max_length = Some (Some (take (max_length - 1) cs), b') \<and>
              Buffer_inv b' \<and> Buffer_contents b' = drop max_length cs"
      by (simp add: cs_def[symmetric] pre_def[symmetric])
  qed
  from nodata short long show ?thesis
    unfolding pre_def cs_def by blast
qed

text \<open>
  A line that is too long is cut, not dropped: with "abcdef" and a newline buffered and
  \<open>max_length\<close> 4, \<open>readline\<close> returns "abc" and leaves "ef" and the newline in the
  buffer, to be returned as a line by the next call.
\<close>

lemma readline_long_line_example:
  "map_option fst (Buffer_readline (Buffer_write Buffer_init (''abcdef'' @ [CHR 0x0A])) 4)
     = Some (Some ''abc'') \<and>
   map_option (Buffer_contents \<circ> snd)
     (Buffer_readline (Buffer_write Buffer_init (''abcdef'' @ [CHR 0x0A])) 4)
     = Some (''ef'' @ [CHR 0x0A])"
proof -
  have
    "map_option fst (Buffer_readline (Buffer_write Buffer_init (''abcdef'' @ [CHR 0x0A])) 4)
       = Some (Some ''abc'')"
    by (simp add: buffer_eval)
  moreover have
    "map_option (Buffer_contents \<circ> snd)
       (Buffer_readline (Buffer_write Buffer_init (''abcdef'' @ [CHR 0x0A])) 4)
       = Some (''ef'' @ [CHR 0x0A])"
    by (simp add: buffer_eval Buffer_contents_def)
  ultimately show ?thesis by blast
qed

text \<open>Instances of \<open>readline_lines\<close>, one for each of its three cases.\<close>

lemma readline_lines_examples:
  "Buffer_inv (Buffer_write Buffer_init (replicate 512 (CHR ''a''))) \<and>
   Buffer_readline (Buffer_write Buffer_init (replicate 512 (CHR ''a''))) 512
     = Some (None, Buffer_write Buffer_init (replicate 512 (CHR ''a''))) \<and>
   Buffer_inv (Buffer_write Buffer_init (''abc'' @ CRLF @ ''def'')) \<and>
   (\<exists>b'. Buffer_readline (Buffer_write Buffer_init (''abc'' @ CRLF @ ''def'')) 512
            = Some (Some ''abc'', b') \<and>
         Buffer_inv b' \<and> Buffer_contents b' = ''def'') \<and>
   (\<exists>b'. Buffer_readline (Buffer_write Buffer_init (''abc'' @ CRLF @ ''def'')) 4
            = Some (Some ''abc'', b') \<and>
         Buffer_inv b' \<and> Buffer_contents b' = [CHR 0x0A] @ ''def'')"
proof -
  have "length (replicate 512 (CHR ''a'')) < SIZE_MOD" by (simp add: SIZE_MOD_def)
  note w1 = Buffer_write_init[OF this]
  have "length (''abc'' @ CRLF @ ''def'') < SIZE_MOD" by (simp add: SIZE_MOD_def CRLF_def)
  note w2 = Buffer_write_init[OF this]
  have one: "(1::nat) \<le> 512" "(1::nat) \<le> 4" by simp_all
  have a: "Buffer_readline (Buffer_write Buffer_init (replicate 512 (CHR ''a''))) 512
     = Some (None, Buffer_write Buffer_init (replicate 512 (CHR ''a'')))"
    using readline_lines[OF w1(1) one(1)] w1(2,3)
    by (simp add: HTTP_BUFFER_FRAGMENT_SIZE_def)
  have b: "\<exists>b'. Buffer_readline (Buffer_write Buffer_init (''abc'' @ CRLF @ ''def'')) 512
            = Some (Some ''abc'', b') \<and>
         Buffer_inv b' \<and> Buffer_contents b' = ''def''"
    using readline_lines[OF w2(1) one(1)] w2(2)
    by (simp add: CRLF_def strip_cr_def)
  have c: "\<exists>b'. Buffer_readline (Buffer_write Buffer_init (''abc'' @ CRLF @ ''def'')) 4
            = Some (Some ''abc'', b') \<and>
         Buffer_inv b' \<and> Buffer_contents b' = [CHR 0x0A] @ ''def''"
    using readline_lines[OF w2(1) one(2)] w2(2)
    by (simp add: CRLF_def)
  from a b c w1(1) w2(1) show ?thesis by blast
qed

text \<open>
  Claim C6 says that \<open>readline\<close> returns "no data" and consumes nothing while no newline
  is among the buffered bytes, that it returns a buffered line once, stripped of its
  line break, and that it cuts a line longer than \<open>max_length\<close>. The scan of \<open>readline\<close>
  goes on while \<open>fragment || i < (end % HTTP_BUFFER_FRAGMENT_SIZE)\<close>: after the last
  fragment \<open>fragment\<close> is null and \<open>i\<close> is 0, so whenever \<open>end\<close> is not a multiple of the
  fragment size the loop reads \<open>fragment->data[0]\<close> through the null pointer. With "abc"
  buffered and no newline the call does not return \<open>NULL\<close>, and \<open>handleData\<close> has no
  defined outcome when the first bytes of a response end inside the status line.
\<close>

theorem readline_partial_line_dereferences_null:
  "Buffer_readline (Buffer_write Buffer_init ''abc'') HTTP_MAX_LINE_LENGTH = None \<and>
   readline_scan 3 [] 0 HTTP_BUFFER_FRAGMENT_SIZE False = None \<and>
   Option.bind request_sent (handleData ''HTTP/1.1 20'') = None"
proof -
  have "length ''abc'' < SIZE_MOD" by (simp add: SIZE_MOD_def)
  note w = Buffer_write_init[OF this]
  have a: "Buffer_readline (Buffer_write Buffer_init ''abc'') HTTP_MAX_LINE_LENGTH = None"
    using Buffer_readline_nodata[OF w(1), of HTTP_MAX_LINE_LENGTH] w(2,3)
    by (simp add: HTTP_BUFFER_FRAGMENT_SIZE_def)
  have b: "readline_scan 3 [] 0 HTTP_BUFFER_FRAGMENT_SIZE False = None"
    by (simp add: readline_scan.simps)
  have "length ''HTTP/1.1 20'' < SIZE_MOD" by (simp add: SIZE_MOD_def)
  note v = Buffer_write_init[OF this]
  have rl: "Buffer_readline (Buffer_write Buffer_init ''HTTP/1.1 20'') HTTP_MAX_LINE_LENGTH = None"
    using Buffer_readline_nodata[OF v(1), of HTTP_MAX_LINE_LENGTH] v(2,3)
    by (simp add: HTTP_BUFFER_FRAGMENT_SIZE_def)
  have c: "Option.bind request_sent (handleData ''HTTP/1.1 20'') = None"
    unfolding request_sent_eval
    by (simp add: handleData_def handleData_lines.simps AsyncHTTPRequest_init_def rl)
  from a b c show ?thesis by blast
qed

end
